theory Spec2Isabelle
  imports Main "HOL-Library.Sublist" "HOL-Library.List_Lexorder" "HOL-Library.Multiset"
begin

section \<open>Python values used by architect.py\<close>

text \<open>
  A Python \<open>str\<close> is a sequence of Unicode code points, so it is modelled as a list of
  natural numbers. \<open>ascii\<close> turns a HOL string literal into such a sequence.
\<close>

type_synonym pystr = "nat list"

definition ascii :: "string \<Rightarrow> pystr" where
  "ascii s = map of_char s"

text \<open>
  Exceptions are values: the class and the text that \<open>str(e)\<close> gives. An \<open>OSError\<close>
  has its \<open>errno\<close> as well; Python picks its subclass from it (\<open>PermissionError\<close> for
  \<open>EACCES\<close> and \<open>EPERM\<close>, \<open>FileNotFoundError\<close> for \<open>ENOENT\<close>, and so on). Every
  exception below is an instance of Python's \<open>Exception\<close>, so \<open>except Exception\<close>
  catches all of them.
\<close>

datatype exn_class = ValueError | AttributeError | UnicodeDecodeError
  | GithubException | OpenAIError

datatype exn = Exn exn_class pystr | OSErr nat pystr

fun str_exn :: "exn \<Rightarrow> pystr" where
  "str_exn (Exn c s) = s"
| "str_exn (OSErr n s) = s"

text \<open>\<open>sub in s\<close> on strings: \<open>sub\<close> occurs in \<open>s\<close> as a contiguous run.\<close>

fun py_in :: "'a list \<Rightarrow> 'a list \<Rightarrow> bool" where
  "py_in sub [] = (sub = [])"
| "py_in sub (c # cs) = (prefix sub (c # cs) \<or> py_in sub cs)"

text \<open>
  \<open>str.lower()\<close>. Only the ASCII letters are mapped: no code point outside ASCII has a
  lower-case form containing a letter of \<open>not found\<close>, which is all the source uses
  the result for.
\<close>

definition lower_char :: "nat \<Rightarrow> nat" where
  "lower_char c = (if 65 \<le> c \<and> c \<le> 90 then c + 32 else c)"

definition lower :: "pystr \<Rightarrow> pystr" where
  "lower s = map lower_char s"

text \<open>\<open>sep.join(xs)\<close>.\<close>

fun py_join :: "'a list \<Rightarrow> 'a list list \<Rightarrow> 'a list" where
  "py_join sep [] = []"
| "py_join sep [x] = x"
| "py_join sep (x # y # ys) = x @ sep @ py_join sep (y # ys)"

text \<open>
  A \<open>Dict[str, str]\<close> keeps insertion order, so it is an association list with distinct
  keys. \<open>d[k] = v\<close> replaces the value in place when the key is present and appends
  otherwise.
\<close>

type_synonym blueprint = "(pystr \<times> pystr) list"

fun dict_set :: "('k \<times> 'v) list \<Rightarrow> 'k \<Rightarrow> 'v \<Rightarrow> ('k \<times> 'v) list" where
  "dict_set [] k v = [(k, v)]"
| "dict_set ((k', v') # d) k v = (if k' = k then (k, v) # d else (k', v') # dict_set d k v)"

section \<open>json.dumps(blueprint, indent=2, ensure\_ascii=False)\<close>

text \<open>
  With \<open>ensure_ascii=False\<close> the encoder escapes the backslash, the double quote and the
  control characters below U+0020 only; every other code point is written as it is.
\<close>

definition hex_digit :: "nat \<Rightarrow> nat" where
  "hex_digit d = (if d < 10 then 48 + d else 87 + d)"

definition escape_char :: "nat \<Rightarrow> pystr" where
  "escape_char c =
     (if c = 92 then [92, 92]
      else if c = 34 then [92, 34]
      else if c = 8 then [92, 98]
      else if c = 12 then [92, 102]
      else if c = 10 then [92, 110]
      else if c = 13 then [92, 114]
      else if c = 9 then [92, 116]
      else if c < 32 then [92, 117, 48, 48, hex_digit (c div 16), hex_digit (c mod 16)]
      else [c])"

definition encode_basestring :: "pystr \<Rightarrow> pystr" where
  "encode_basestring s = 34 # concat (map escape_char s) @ [34]"

definition newline_indent :: pystr where
  "newline_indent = [10, 32, 32]"

definition encode_item :: "pystr \<times> pystr \<Rightarrow> pystr" where
  "encode_item kv = encode_basestring (fst kv) @ [58, 32] @ encode_basestring (snd kv)"

definition json_dumps :: "blueprint \<Rightarrow> pystr" where
  "json_dumps d =
     (if d = [] then [123, 125]
      else [123] @ newline_indent
           @ py_join (44 # newline_indent) (map encode_item d)
           @ [10] @ [125])"

section \<open>deploy\_to\_github\<close>

text \<open>
  The remote repository service is a parameter: what each PyGithub call answers. Every
  call that reaches the service is appended to a trace, so that the number and the
  arguments of the calls can be stated.
\<close>

datatype contents = ContentFile pystr pystr | ContentList

datatype call =
    GetRepo pystr pystr
  | GetContents pystr pystr
  | UpdateFile pystr pystr pystr pystr pystr
  | CreateFile pystr pystr pystr pystr

record remote =
  get_repo :: "pystr \<Rightarrow> pystr \<Rightarrow> exn + unit"
  get_contents :: "pystr \<Rightarrow> pystr \<Rightarrow> exn + contents"
  update_file :: "pystr \<Rightarrow> pystr \<Rightarrow> pystr \<Rightarrow> pystr \<Rightarrow> pystr \<Rightarrow> exn + unit"
  create_file :: "pystr \<Rightarrow> pystr \<Rightarrow> pystr \<Rightarrow> pystr \<Rightarrow> exn + unit"

definition target_path :: pystr where
  "target_path = ascii ''admin_tools_blueprint.json''"

text \<open>
  The body of the \<open>try\<close>: fetch, then update with the fetched \<open>sha\<close>. When the path is
  a directory \<open>get_contents\<close> returns a list, and \<open>existing.path\<close> raises.
\<close>

definition try_update ::
  "remote \<Rightarrow> pystr \<Rightarrow> pystr \<Rightarrow> pystr \<Rightarrow> call list \<times> (exn + unit)" where
  "try_update r commit_message content_str branch_name =
     (case get_contents r target_path branch_name of
        Inl e \<Rightarrow> ([GetContents target_path branch_name], Inl e)
      | Inr ContentList \<Rightarrow>
          ([GetContents target_path branch_name],
           Inl (Exn AttributeError
                  ([39] @ ascii ''list'' @ [39] @ ascii '' object has no attribute ''
                   @ [39] @ ascii ''path'' @ [39])))
      | Inr (ContentFile path sha) \<Rightarrow>
          ([GetContents target_path branch_name,
            UpdateFile path commit_message content_str sha branch_name],
           update_file r path commit_message content_str sha branch_name))"

definition deploy_to_github ::
  "remote \<Rightarrow> pystr \<Rightarrow> pystr \<Rightarrow> blueprint \<Rightarrow> pystr \<Rightarrow> pystr \<Rightarrow> call list \<times> (exn + unit)" where
  "deploy_to_github r token repo_full_name blueprint commit_message branch_name =
     (if token = [] then ([], Inl (Exn ValueError (ascii ''GitHub token is missing'')))
      else if repo_full_name = [] then ([], Inl (Exn ValueError (ascii ''Repo name is missing'')))
      else case get_repo r token repo_full_name of
        Inl e \<Rightarrow> ([GetRepo token repo_full_name], Inl e)
      | Inr _ \<Rightarrow>
          (let content_str = json_dumps blueprint;
               (calls, res) = try_update r commit_message content_str branch_name;
               calls = GetRepo token repo_full_name # calls
           in case res of
                Inr u \<Rightarrow> (calls, Inr u)
              | Inl e \<Rightarrow>
                  (let err_str = str_exn e
                   in if py_in (ascii ''404'') err_str
                         \<or> py_in (ascii ''not found'') (lower err_str)
                      then (calls @ [CreateFile target_path commit_message content_str branch_name],
                            create_file r target_path commit_message content_str branch_name)
                      else (calls, Inl e))))"

section \<open>generate\_response\<close>

text \<open>
  The chat-completion endpoint is a parameter: the answer to a call, or the exception it
  raises. A response is an object whose \<open>choices\<close> may be missing or empty (both are
  the empty list here); a choice has an optional \<open>message\<close>, which is either a
  dictionary-like mapping (with \<open>get\<close>) or some other object, and an optional
  \<open>text\<close> (\<open>None\<close> for a missing attribute and for the value \<open>None\<close>: both end up
  as the empty string).
\<close>

record entry =
  role :: pystr
  content :: pystr

datatype message_obj = DictMessage "(pystr \<times> pystr option) list" | PlainMessage

record choice =
  message :: "message_obj option"
  text_attr :: "pystr option"

datatype response = EmptyResponse | Response "choice list"

datatype openai_call = ChatCompletionCreate pystr pystr "entry list"

type_synonym openai = "pystr \<Rightarrow> pystr \<Rightarrow> entry list \<Rightarrow> exn + response"

text \<open>\<open>content or ''\<close>: \<open>None\<close> and the empty string both give the empty string.\<close>

definition or_empty :: "pystr option \<Rightarrow> pystr" where
  "or_empty c = (case c of None \<Rightarrow> [] | Some s \<Rightarrow> s)"

definition extract_content :: "response \<Rightarrow> pystr" where
  "extract_content resp =
     (case resp of
        EmptyResponse \<Rightarrow> []
      | Response [] \<Rightarrow> []
      | Response (ch # _) \<Rightarrow>
          (case message ch of
             Some (DictMessage (kv # kvs)) \<Rightarrow>
               or_empty (case map_of (kv # kvs) (ascii ''content'') of
                           None \<Rightarrow> Some [] | Some v \<Rightarrow> v)
           | _ \<Rightarrow> or_empty (text_attr ch)))"

definition generate_response ::
  "openai \<Rightarrow> pystr \<Rightarrow> pystr \<Rightarrow> entry list \<Rightarrow> openai_call list \<times> (exn + pystr)" where
  "generate_response oa api_key model_name messages =
     (if api_key = [] then ([], Inl (Exn ValueError (ascii ''OpenAI API key is missing'')))
      else case oa api_key model_name messages of
             Inl e \<Rightarrow> ([ChatCompletionCreate api_key model_name messages], Inl e)
           | Inr resp \<Rightarrow>
               ([ChatCompletionCreate api_key model_name messages], Inr (extract_content resp)))"

section \<open>Observations and sample remotes for the publisher\<close>

text \<open>Which remote operation a traced call is.\<close>

definition is_fetch :: "call \<Rightarrow> bool" where
  "is_fetch c = (case c of GetContents _ _ \<Rightarrow> True | _ \<Rightarrow> False)"

definition is_update :: "call \<Rightarrow> bool" where
  "is_update c = (case c of UpdateFile _ _ _ _ _ \<Rightarrow> True | _ \<Rightarrow> False)"

definition is_create :: "call \<Rightarrow> bool" where
  "is_create c = (case c of CreateFile _ _ _ _ \<Rightarrow> True | _ \<Rightarrow> False)"

text \<open>
  The specification's not-found condition, in its own words: the error text contains
  \<open>404\<close> or, ignoring case, \<open>not found\<close>.
\<close>

definition not_found_text :: "pystr \<Rightarrow> bool" where
  "not_found_text s = (sublist (ascii ''404'') s \<or> sublist (ascii ''not found'') (lower s))"

text \<open>
  The specification's error kinds. The source raises \<open>ValueError\<close> for both and tells
  them apart by the message.
\<close>

definition missing_credential :: exn where
  "missing_credential = Exn ValueError (ascii ''GitHub token is missing'')"

definition missing_target :: exn where
  "missing_target = Exn ValueError (ascii ''Repo name is missing'')"

definition missing_api_key :: exn where
  "missing_api_key = Exn ValueError (ascii ''OpenAI API key is missing'')"

text \<open>
  Sample remotes: one where the target file exists and every call succeeds, one where
  the update is answered with a 404, one where the target file is absent.
\<close>

definition error_404 :: exn where
  "error_404 = Exn GithubException (ascii ''404 Not Found'')"

definition remote_existing :: remote where
  "remote_existing =
     \<lparr> get_repo = (\<lambda>_ _. Inr ()),
       get_contents = (\<lambda>_ _. Inr (ContentFile target_path (ascii ''abc123''))),
       update_file = (\<lambda>_ _ _ _ _. Inr ()),
       create_file = (\<lambda>_ _ _ _. Inr ()) \<rparr>"

definition remote_update_404 :: remote where
  "remote_update_404 = remote_existing \<lparr> update_file := (\<lambda>_ _ _ _ _. Inl error_404) \<rparr>"

definition remote_absent :: remote where
  "remote_absent = remote_existing \<lparr> get_contents := (\<lambda>_ _. Inl error_404) \<rparr>"

section \<open>The file system and pathlib\<close>

text \<open>
  A directory tree. A file has the bytes it holds and, when reading it fails, the
  exception that the read raises. A directory has its two permissions, whether it can be
  listed and whether names can be looked up in it, and its entries in the order in which
  the operating system enumerates them. Symbolic links and special files are left out.
\<close>

datatype node = File "exn option" "nat list" | Dir bool bool "(pystr \<times> node) list"

record fs =
  fs_root :: node
  fs_cwd :: "pystr list"

text \<open>
  The errors of the operating system that this tree can give. The text that Python makes
  for them also names the path; the source never looks at it.
\<close>

definition enoent :: exn where
  "enoent = OSErr 2 (ascii ''[Errno 2] No such file or directory'')"

definition eacces :: exn where
  "eacces = OSErr 13 (ascii ''[Errno 13] Permission denied'')"

definition enotdir :: exn where
  "enotdir = OSErr 20 (ascii ''[Errno 20] Not a directory'')"

definition eisdir :: exn where
  "eisdir = OSErr 21 (ascii ''[Errno 21] Is a directory'')"

text \<open>
  pathlib's \<open>_ignore_error\<close>: the errno is one of \<open>ENOENT\<close>, \<open>ENOTDIR\<close>, \<open>EBADF\<close>,
  \<open>ELOOP\<close>.
\<close>

fun ignore_error :: "exn \<Rightarrow> bool" where
  "ignore_error (OSErr n s) = (n = 2 \<or> n = 20 \<or> n = 9 \<or> n = 40)"
| "ignore_error (Exn c s) = False"

text \<open>
  A \<open>PurePosixPath\<close>: whether it starts at the root, and its segments. \<open>Path('.')\<close>
  has no segment.
\<close>

datatype path = Path (absolute: bool) (parts: "pystr list")

definition parent :: "path \<Rightarrow> path" where
  "parent p = Path (absolute p) (butlast (parts p))"

definition joinpath :: "path \<Rightarrow> pystr list \<Rightarrow> path" where
  "joinpath p r = Path (absolute p) (parts p @ r)"

text \<open>What sorting compares: the segments, after the root for an absolute path.\<close>

definition cparts :: "path \<Rightarrow> pystr list" where
  "cparts p = (if absolute p then [[47]] else []) @ parts p"

definition str_path :: "path \<Rightarrow> pystr" where
  "str_path p =
     (if absolute p then 47 # py_join [47] (parts p)
      else if parts p = [] then [46]
      else py_join [47] (parts p))"

text \<open>\<open>as_posix\<close> replaces the flavour's separator, which is the slash itself here.\<close>

definition as_posix :: "path \<Rightarrow> pystr" where
  "as_posix p = map (\<lambda>c. if c = 47 then 47 else c) (str_path p)"

definition relative_to :: "path \<Rightarrow> path \<Rightarrow> exn + path" where
  "relative_to p other =
     (if absolute p = absolute other \<and> prefix (parts other) (parts p)
      then Inr (Path False (drop (length (parts other)) (parts p)))
      else Inl (Exn ValueError
                  (str_path p @ ascii '' is not in the subpath of '' @ str_path other)))"

text \<open>
  Resolving a path: \<open>walk\<close> goes down from a node, keeping the directories above it,
  so that \<open>..\<close> can go back up (and stays at the root there). Looking a name up in a
  directory needs the search permission of that directory; the flag says whether
  permissions are checked. A relative path starts at the working directory, which the
  process holds already: permissions are checked from there on only.
\<close>

fun walk :: "bool \<Rightarrow> node \<Rightarrow> node list \<Rightarrow> pystr list \<Rightarrow> exn + node \<times> node list" where
  "walk chk n anc [] = Inr (n, anc)"
| "walk chk (File err bs) anc (s # ss) = Inl enotdir"
| "walk chk (Dir r x es) anc (s # ss) =
     (if chk \<and> \<not> x then Inl eacces
      else if s = [46, 46]
      then (case anc of [] \<Rightarrow> walk chk (Dir r x es) [] ss | a # anc' \<Rightarrow> walk chk a anc' ss)
      else (case map_of es s of
              None \<Rightarrow> Inl enoent
            | Some n \<Rightarrow> walk chk n (Dir r x es # anc) ss))"

definition resolve :: "fs \<Rightarrow> path \<Rightarrow> exn + node \<times> node list" where
  "resolve f p =
     (if absolute p then walk True (fs_root f) [] (parts p)
      else case walk False (fs_root f) [] (fs_cwd f) of
             Inl e \<Rightarrow> Inl e
           | Inr (n, anc) \<Rightarrow> walk True n anc (parts p))"

definition stat :: "fs \<Rightarrow> path \<Rightarrow> exn + node" where
  "stat f p = (case resolve f p of Inl e \<Rightarrow> Inl e | Inr (n, anc) \<Rightarrow> Inr n)"

text \<open>
  \<open>exists\<close>, \<open>is_dir\<close> and \<open>is_file\<close> call \<open>stat\<close>; an error that \<open>_ignore_error\<close>
  accepts gives \<open>False\<close>, any other error is raised again. (A name with a NUL makes
  \<open>stat\<close> raise \<open>ValueError\<close>, which the three also answer with \<open>False\<close>; no directory
  holds such a name here, so the lookup fails with \<open>ENOENT\<close> and the answer is the same.)
\<close>

definition exists :: "fs \<Rightarrow> path \<Rightarrow> exn + bool" where
  "exists f p =
     (case stat f p of
        Inr n \<Rightarrow> Inr True
      | Inl e \<Rightarrow> if ignore_error e then Inr False else Inl e)"

definition is_dir :: "fs \<Rightarrow> path \<Rightarrow> exn + bool" where
  "is_dir f p =
     (case stat f p of
        Inr (Dir r x es) \<Rightarrow> Inr True
      | Inr (File err bs) \<Rightarrow> Inr False
      | Inl e \<Rightarrow> if ignore_error e then Inr False else Inl e)"

definition is_file :: "fs \<Rightarrow> path \<Rightarrow> exn + bool" where
  "is_file f p =
     (case stat f p of
        Inr (File err bs) \<Rightarrow> Inr True
      | Inr (Dir r x es) \<Rightarrow> Inr False
      | Inl e \<Rightarrow> if ignore_error e then Inr False else Inl e)"

text \<open>Strict UTF-8: no overlong form, no surrogate, nothing above U+10FFFF.\<close>

definition cont :: "nat \<Rightarrow> bool" where
  "cont b = (128 \<le> b \<and> b < 192)"

fun utf8_decode :: "nat list \<Rightarrow> pystr option" where
  "utf8_decode [] = Some []"
| "utf8_decode (b # bs) =
     (if b < 128 then map_option ((#) b) (utf8_decode bs)
      else if 194 \<le> b \<and> b < 224 then
        (case bs of
           c1 # r \<Rightarrow>
             if cont c1 then map_option ((#) ((b - 192) * 64 + (c1 - 128))) (utf8_decode r)
             else None
         | _ \<Rightarrow> None)
      else if 224 \<le> b \<and> b < 240 then
        (case bs of
           c1 # c2 # r \<Rightarrow>
             (let cp = (b - 224) * 4096 + (c1 - 128) * 64 + (c2 - 128)
              in if cont c1 \<and> cont c2 \<and> 2048 \<le> cp \<and> \<not> (55296 \<le> cp \<and> cp < 57344)
                 then map_option ((#) cp) (utf8_decode r) else None)
         | _ \<Rightarrow> None)
      else if 240 \<le> b \<and> b < 245 then
        (case bs of
           c1 # c2 # c3 # r \<Rightarrow>
             (let cp = (b - 240) * 262144 + (c1 - 128) * 4096 + (c2 - 128) * 64 + (c3 - 128)
              in if cont c1 \<and> cont c2 \<and> cont c3 \<and> 65536 \<le> cp \<and> cp < 1114112
                 then map_option ((#) cp) (utf8_decode r) else None)
         | _ \<Rightarrow> None)
      else None)"

text \<open>Text mode reads with universal newlines: \<open>\r\n\<close> and \<open>\r\<close> become \<open>\n\<close>.\<close>

fun universal_newlines :: "pystr \<Rightarrow> pystr" where
  "universal_newlines [] = []"
| "universal_newlines [c] = [if c = 13 then 10 else c]"
| "universal_newlines (c # d # cs) =
     (if c = 13 \<and> d = 10 then 10 # universal_newlines cs
      else if c = 13 then 10 # universal_newlines (d # cs)
      else c # universal_newlines (d # cs))"

text \<open>
  \<open>read_text(encoding='utf-8')\<close>: opening the file resolves the path as \<open>stat\<close> does,
  then the read may fail, then the bytes are decoded.
\<close>

definition read_text :: "fs \<Rightarrow> path \<Rightarrow> exn + pystr" where
  "read_text f p =
     (case stat f p of
        Inl e \<Rightarrow> Inl e
      | Inr (Dir r x es) \<Rightarrow> Inl eisdir
      | Inr (File (Some e) bs) \<Rightarrow> Inl e
      | Inr (File None bs) \<Rightarrow>
          (case utf8_decode bs of
             None \<Rightarrow> Inl (Exn UnicodeDecodeError (ascii ''utf-8 codec can not decode byte''))
           | Some cps \<Rightarrow> Inr (universal_newlines cps)))"

text \<open>
  The selectors of \<open>rglob('*')\<close>, below a directory that has been opened. Each directory
  met is scanned: its entries are yielded, hidden names included, then the directories
  among them are visited in turn. Scanning a directory that cannot be listed raises
  \<open>PermissionError\<close>, and so does scanning a directory inside one that cannot be
  searched; both selectors catch it and yield nothing for that directory.
\<close>

fun glob :: "node \<Rightarrow> pystr list list" where
  "glob (File err bs) = []"
| "glob (Dir r x es) =
     (if r then
        map (\<lambda>e. [fst e]) es
        @ concat (map (\<lambda>e. map ((#) (fst e)) (if x then glob (snd e) else [])) es)
      else [])"

text \<open>\<open>select_from\<close> asks \<open>is_dir\<close> first, which may raise.\<close>

definition rglob :: "fs \<Rightarrow> path \<Rightarrow> exn + path list" where
  "rglob f folder =
     (case is_dir f folder of
        Inl e \<Rightarrow> Inl e
      | Inr b \<Rightarrow>
          if \<not> b then Inr []
          else Inr (case stat f folder of
                      Inl e \<Rightarrow> []
                    | Inr n \<Rightarrow> map (joinpath folder) (glob n)))"

definition sorted_paths :: "path list \<Rightarrow> path list" where
  "sorted_paths ps = sort_key cparts ps"

section \<open>build\_blueprint\_from\_folder\<close>

fun build_loop :: "fs \<Rightarrow> path \<Rightarrow> path list \<Rightarrow> blueprint \<Rightarrow> exn + blueprint" where
  "build_loop f folder [] blueprint = Inr blueprint"
| "build_loop f folder (p # ps) blueprint =
     (case is_file f p of
        Inl e \<Rightarrow> Inl e
      | Inr b \<Rightarrow>
          if b then
            (case relative_to p (parent folder) of
               Inl e \<Rightarrow> Inl e
             | Inr rp \<Rightarrow>
                 (let rel = as_posix rp
                  in case read_text f p of
                       Inl e \<Rightarrow> build_loop f folder ps blueprint
                     | Inr text \<Rightarrow> build_loop f folder ps (dict_set blueprint rel text)))
          else build_loop f folder ps blueprint)"

definition build_blueprint_from_folder :: "fs \<Rightarrow> path \<Rightarrow> exn + blueprint" where
  "build_blueprint_from_folder f folder =
     (case exists f folder of
        Inl e \<Rightarrow> Inl e
      | Inr ex \<Rightarrow>
          if \<not> ex then Inr []
          else
            (case is_dir f folder of
               Inl e \<Rightarrow> Inl e
             | Inr d \<Rightarrow>
                 if \<not> d then Inr []
                 else
                   (case rglob f folder of
                      Inl e \<Rightarrow> Inl e
                    | Inr ps \<Rightarrow> build_loop f folder (sorted_paths ps) [])))"

section \<open>Well-formed trees and sample trees\<close>

text \<open>
  A file name is not empty, is neither \<open>.\<close> nor \<open>..\<close>, and has no slash and no NUL;
  the names in one directory are distinct.
\<close>

definition valid_name :: "pystr \<Rightarrow> bool" where
  "valid_name s = (s \<noteq> [] \<and> s \<noteq> [46] \<and> s \<noteq> [46, 46] \<and> 47 \<notin> set s \<and> 0 \<notin> set s)"

fun wf_node :: "node \<Rightarrow> bool" where
  "wf_node (File err bs) = True"
| "wf_node (Dir r x es) =
     (distinct (map fst es) \<and> list_all (\<lambda>e. valid_name (fst e) \<and> wf_node (snd e)) es)"

text \<open>Every directory of the tree can be listed and searched.\<close>

fun open_node :: "node \<Rightarrow> bool" where
  "open_node (File err bs) = True"
| "open_node (Dir r x es) = (r \<and> x \<and> list_all (\<lambda>e. open_node (snd e)) es)"

text \<open>Every entry below a directory, whatever the permissions.\<close>

fun descendants :: "node \<Rightarrow> pystr list list" where
  "descendants (File err bs) = []"
| "descendants (Dir r x es) =
     map (\<lambda>e. [fst e]) es @ concat (map (\<lambda>e. map ((#) (fst e)) (descendants (snd e))) es)"

text \<open>Going down by names only, as a path without \<open>..\<close> does, permissions checked.\<close>

fun subnode :: "node \<Rightarrow> pystr list \<Rightarrow> exn + node" where
  "subnode n [] = Inr n"
| "subnode (File err bs) (s # ss) = Inl enotdir"
| "subnode (Dir r x es) (s # ss) =
     (if \<not> x then Inl eacces
      else case map_of es s of None \<Rightarrow> Inl enoent | Some n \<Rightarrow> subnode n ss)"

text \<open>The key of the entry at \<open>r\<close> below \<open>folder\<close>, as the loop computes it.\<close>

definition key_of :: "path \<Rightarrow> pystr list \<Rightarrow> pystr" where
  "key_of folder r =
     as_posix (Path False ((if parts folder = [] then [] else [last (parts folder)]) @ r))"

text \<open>The same tree whatever the order of the directory listings: entries sorted by name.\<close>

fun canon :: "node \<Rightarrow> node" where
  "canon (File err bs) = File err bs"
| "canon (Dir r x es) = Dir r x (sort_key fst (map (\<lambda>e. (fst e, canon (snd e))) es))"

text \<open>What the loop adds to the blueprint for the entry at \<open>r\<close> below \<open>folder\<close>, when it is a file.\<close>

definition entry_of :: "fs \<Rightarrow> path \<Rightarrow> pystr list \<Rightarrow> (pystr \<times> pystr) option" where
  "entry_of f folder r =
     (case read_text f (joinpath folder r) of
        Inl e \<Rightarrow> None
      | Inr t \<Rightarrow> Some (key_of folder r, t))"

text \<open>
  Sample trees, below the working directory \<open>/proj\<close>: \<open>root/{a.txt: "hi", sub/b.bin:
  invalid UTF-8}\<close>, listed in two different orders; a tree whose only file holds valid
  UTF-8 but cannot be read; a tree with one readable and one unreadable file; a tree
  whose directory \<open>sub\<close> can be searched but not listed, and one where it can be listed
  but not searched; a directory that cannot be searched; and a tree with two text
  files, listed in two different orders.
\<close>

definition sample_tree :: node where
  "sample_tree =
     Dir True True
       [(ascii ''a.txt'', File None [104, 105]),
        (ascii ''sub'', Dir True True [(ascii ''b.bin'', File None [255, 254, 0])])]"

definition sample_tree_reordered :: node where
  "sample_tree_reordered =
     Dir True True
       [(ascii ''sub'', Dir True True [(ascii ''b.bin'', File None [255, 254, 0])]),
        (ascii ''a.txt'', File None [104, 105])]"

definition fs_of :: "node \<Rightarrow> fs" where
  "fs_of t = \<lparr> fs_root = Dir True True [(ascii ''proj'', Dir True True [(ascii ''root'', t)])],
               fs_cwd = [ascii ''proj''] \<rparr>"

definition root_path :: path where
  "root_path = Path False [ascii ''root'']"

definition unreadable_tree :: node where
  "unreadable_tree = Dir True True [(ascii ''a.txt'', File (Some eacces) [104, 105])]"

definition locked_tree :: node where
  "locked_tree =
     Dir True True
       [(ascii ''a.txt'', File None [104, 105]),
        (ascii ''secret.txt'', File (Some eacces) [111, 107])]"

definition unlisted_tree :: node where
  "unlisted_tree =
     Dir True True
       [(ascii ''a.txt'', File None [104, 105]),
        (ascii ''sub'', Dir False True [(ascii ''b.txt'', File None [111, 107])])]"

definition unsearchable_tree :: node where
  "unsearchable_tree =
     Dir True True
       [(ascii ''a.txt'', File None [104, 105]),
        (ascii ''sub'', Dir True False [(ascii ''b.txt'', File None [111, 107])])]"

definition locked_dir :: node where
  "locked_dir = Dir True False []"

definition pair_tree :: node where
  "pair_tree =
     Dir True True
       [(ascii ''b.txt'', File None [98]),
        (ascii ''a.txt'', File None [97])]"

definition pair_tree_reordered :: node where
  "pair_tree_reordered =
     Dir True True
       [(ascii ''a.txt'', File None [97]),
        (ascii ''b.txt'', File None [98])]"

section \<open>json.loads on a blueprint file\<close>

text \<open>
  The decoder of the standard library, for the documents a blueprint file can be: one
  object whose values are strings. On any other text the decoder raises or returns
  something that is not a \<open>Dict[str, str]\<close>; both are \<open>None\<close> here.
\<close>

definition is_ws :: "nat \<Rightarrow> bool" where
  "is_ws c = (c = 32 \<or> c = 9 \<or> c = 10 \<or> c = 13)"

definition skip_ws :: "pystr \<Rightarrow> pystr" where
  "skip_ws s = dropWhile is_ws s"

definition hex_val :: "nat \<Rightarrow> nat option" where
  "hex_val c =
     (if 48 \<le> c \<and> c \<le> 57 then Some (c - 48)
      else if 97 \<le> c \<and> c \<le> 102 then Some (c - 87)
      else if 65 \<le> c \<and> c \<le> 70 then Some (c - 55)
      else None)"

definition hex4 :: "nat \<Rightarrow> nat \<Rightarrow> nat \<Rightarrow> nat \<Rightarrow> nat option" where
  "hex4 a b c d =
     (case (hex_val a, hex_val b, hex_val c, hex_val d) of
        (Some w, Some x, Some y, Some z) \<Rightarrow> Some (w * 4096 + x * 256 + y * 16 + z)
      | _ \<Rightarrow> None)"

text \<open>The character after a backslash, other than \<open>u\<close>.\<close>

definition unescape :: "nat \<Rightarrow> nat option" where
  "unescape e =
     (if e = 34 then Some 34
      else if e = 92 then Some 92
      else if e = 47 then Some 47
      else if e = 98 then Some 8
      else if e = 102 then Some 12
      else if e = 110 then Some 10
      else if e = 114 then Some 13
      else if e = 116 then Some 9
      else None)"

text \<open>
  A \<open>\uXXXX\<close> escape that is a high surrogate and is followed by a \<open>\uXXXX\<close> escape
  that is a low surrogate stands for one code point; the result is the code point and
  what is left of the input.
\<close>

definition surrogate_pair :: "nat \<Rightarrow> pystr \<Rightarrow> nat \<times> pystr" where
  "surrogate_pair u r =
     (case r of
        b # v # g1 # g2 # g3 # g4 # r' \<Rightarrow>
          (if 55296 \<le> u \<and> u \<le> 56319 \<and> b = 92 \<and> v = 117 then
             (case hex4 g1 g2 g3 g4 of
                Some u2 \<Rightarrow>
                  if 56320 \<le> u2 \<and> u2 \<le> 57343
                  then (65536 + (u - 55296) * 1024 + (u2 - 56320), r')
                  else (u, r)
              | None \<Rightarrow> (u, r))
           else (u, r))
      | _ \<Rightarrow> (u, r))"

text \<open>
  \<open>scanstring\<close>, strict: the input starts after the opening quote; the result is the
  string and the input after the closing quote.
\<close>

function scanstring :: "pystr \<Rightarrow> (pystr \<times> pystr) option" where
  "scanstring [] = None"
| "scanstring (c # cs) =
     (if c = 34 then Some ([], cs)
      else if c = 92 then
        (case cs of
           [] \<Rightarrow> None
         | e # r \<Rightarrow>
             if e = 117 then
               (case r of
                  h1 # h2 # h3 # h4 # r' \<Rightarrow>
                    (case hex4 h1 h2 h3 h4 of
                       None \<Rightarrow> None
                     | Some u \<Rightarrow>
                         map_option (\<lambda>(s, rest). (fst (surrogate_pair u r') # s, rest))
                           (scanstring (snd (surrogate_pair u r'))))
                | _ \<Rightarrow> None)
             else
               (case unescape e of
                  None \<Rightarrow> None
                | Some ch \<Rightarrow> map_option (\<lambda>(s, rest). (ch # s, rest)) (scanstring r)))
      else if c < 32 then None
      else map_option (\<lambda>(s, rest). (c # s, rest)) (scanstring cs))"
  by pat_completeness auto
termination
proof -
  have sp: "length (snd (surrogate_pair u t)) < Suc (Suc (Suc (Suc (Suc (Suc (length t))))))"
    for u t
    by (auto simp: surrogate_pair_def split: list.splits option.splits)
  show ?thesis
    by (relation "measure length") (simp_all add: sp)
qed

text \<open>
  The members of an object, from after the opening quote of the first key up to and
  including the closing brace; the result is the pairs and the input after the brace.
\<close>

function parse_pairs :: "pystr \<Rightarrow> ((pystr \<times> pystr) list \<times> pystr) option" where
  "parse_pairs s =
     (case scanstring s of
        None \<Rightarrow> None
      | Some (key, r1) \<Rightarrow>
          (case skip_ws r1 of
             c1 # r2 \<Rightarrow>
               if c1 = 58 then
                 (case skip_ws r2 of
                    c2 # r3 \<Rightarrow>
                      if c2 = 34 then
                        (case scanstring r3 of
                           None \<Rightarrow> None
                         | Some (val, r4) \<Rightarrow>
                             (case skip_ws r4 of
                                c3 # r5 \<Rightarrow>
                                  if c3 = 125 then Some ([(key, val)], r5)
                                  else if c3 = 44 then
                                    (case skip_ws r5 of
                                       c4 # r6 \<Rightarrow>
                                         if c4 = 34 then
                                           map_option (\<lambda>(ps, rest). ((key, val) # ps, rest))
                                             (parse_pairs r6)
                                         else None
                                     | [] \<Rightarrow> None)
                                  else None
                              | [] \<Rightarrow> None))
                      else None
                  | [] \<Rightarrow> None)
               else None
           | [] \<Rightarrow> None))"
  by pat_completeness auto
termination
proof -
  have sp: "length (snd (surrogate_pair u t)) \<le> length t" for u t
    by (auto simp: surrogate_pair_def split: list.splits option.splits)
  have scan: "length r < length s" if "scanstring s = Some (x, r)" for s x r
    using that
  proof (induction s arbitrary: x r rule: scanstring.induct)
    case 1
    then show ?case by simp
  next
    case (2 c cs)
    show ?case
    proof (cases "c = 34")
      case True
      with "2.prems" show ?thesis by simp
    next
      case False
      show ?thesis
      proof (cases "c = 92")
        case c: False
        with False "2.prems" obtain x' where "scanstring cs = Some (x', r)"
          by (auto split: if_splits)
        with "2.IH"(3) [OF False c] "2.prems" False c show ?thesis
          by (fastforce split: if_splits)
      next
        case c: True
        from c "2.prems" obtain e t where cs: "cs = e # t"
          by (cases cs) auto
        show ?thesis
        proof (cases "e = 117")
          case e: False
          from c cs e "2.prems" obtain ch where ch: "unescape e = Some ch"
            by (auto split: option.splits)
          from c cs e ch "2.prems" obtain x' where "scanstring t = Some (x', r)"
            by auto
          with "2.IH"(2) [OF False c cs e ch] have "length r < length t" by blast
          with cs show ?thesis by simp
        next
          case e: True
          from c cs e "2.prems" obtain h1 h2 h3 h4 t' where t: "t = h1 # h2 # h3 # h4 # t'"
            by (auto split: list.splits)
          from c cs e t "2.prems" obtain u where u: "hex4 h1 h2 h3 h4 = Some u"
            by (auto split: option.splits)
          from c cs e t u "2.prems" obtain x' where
            "scanstring (snd (surrogate_pair u t')) = Some (x', r)"
            by auto
          with "2.IH"(1) [OF False c cs e _ _ _ _ u] t
          have "length r < length (snd (surrogate_pair u t'))" by blast
          with sp [of u t'] cs t show ?thesis by simp
        qed
      qed
    qed
  qed
  have ws: "length t' < length t" if "skip_ws t = c # t'" for t t' c
  proof -
    have "length (skip_ws t) \<le> length t"
      by (simp add: skip_ws_def length_dropWhile_le)
    with that show ?thesis by simp
  qed
  show ?thesis
    apply (relation "measure length")
     apply simp_all
    subgoal premises p for s x2 x y x21 x22 x21a x22a x2a xa ya x21b x22b x21c x22c
    proof -
      have "scanstring s = Some (x, y)" "scanstring x22a = Some (xa, ya)"
        using p by simp_all
      then have "length y < length s" "length ya < length x22a"
        using scan by blast+
      moreover have "length x22 < length y" "length x22a < length x22"
        "length x22b < length ya" "length x22c < length x22b"
        using p ws by blast+
      ultimately show ?thesis by simp
    qed
    done
qed

text \<open>\<open>dict(pairs)\<close>: a later pair with the same key replaces the value.\<close>

definition dict_of :: "('k \<times> 'v) list \<Rightarrow> ('k \<times> 'v) list" where
  "dict_of ps = foldl (\<lambda>d kv. dict_set d (fst kv) (snd kv)) [] ps"

definition json_loads :: "pystr \<Rightarrow> blueprint option" where
  "json_loads s =
     (case skip_ws s of
        c # r \<Rightarrow>
          if c = 123 then
            (case skip_ws r of
               c' # r' \<Rightarrow>
                 if c' = 125 then (if skip_ws r' = [] then Some [] else None)
                 else if c' = 34 then
                   (case parse_pairs r' of
                      None \<Rightarrow> None
                    | Some (ps, rest) \<Rightarrow> if skip_ws rest = [] then Some (dict_of ps) else None)
                 else None
             | [] \<Rightarrow> None)
          else None
      | [] \<Rightarrow> None)"

section \<open>The publisher and the response generator\<close>

lemma py_in_sublist: "py_in xs ys = sublist xs ys"
  by (induction ys) (auto simp: sublist_Cons_right)

lemma marker_iff:
  "(py_in (ascii ''404'') s \<or> py_in (ascii ''not found'') (lower s)) = not_found_text s"
  by (simp add: not_found_text_def py_in_sublist)

lemmas deploy_defs = deploy_to_github_def try_update_def Let_def

text \<open>
  C1, as the code has it. When the fetch of the target file succeeds, the publisher makes
  exactly one fetch and exactly one update call, and the update carries the fetched
  \<open>sha\<close>. When the update succeeds, or fails with an error whose text has neither
  \<open>404\<close> nor \<open>not found\<close>, no create call is made and the outcome of the update is
  the outcome of the publisher, the error unchanged.
\<close>

theorem deploy_existing_updates:
  assumes "token \<noteq> []" and "repo \<noteq> []"
    and "get_repo r token repo = Inr u"
    and "get_contents r target_path branch = Inr (ContentFile path sha)"
    and "deploy_to_github r token repo bp msg branch = (calls, res)"
  shows "filter is_fetch calls = [GetContents target_path branch]
       \<and> filter is_update calls = [UpdateFile path msg (json_dumps bp) sha branch]
       \<and> (\<forall>e. update_file r path msg (json_dumps bp) sha branch = Inl e
              \<and> \<not> not_found_text (str_exn e)
            \<longrightarrow> filter is_create calls = [] \<and> res = Inl e)
       \<and> (\<forall>v. update_file r path msg (json_dumps bp) sha branch = Inr v
            \<longrightarrow> filter is_create calls = [] \<and> res = Inr v)"
  using assms
  by (auto simp: deploy_defs is_fetch_def is_update_def is_create_def marker_iff
      split: sum.splits if_splits)

theorem deploy_existing_updates_witness:
  "filter is_fetch (fst (deploy_to_github remote_existing (ascii ''tok'') (ascii ''o/r'') []
       (ascii ''msg'') (ascii ''main''))) = [GetContents target_path (ascii ''main'')]
   \<and> filter is_update (fst (deploy_to_github remote_existing (ascii ''tok'') (ascii ''o/r'') []
       (ascii ''msg'') (ascii ''main'')))
     = [UpdateFile target_path (ascii ''msg'') (json_dumps []) (ascii ''abc123'') (ascii ''main'')]
   \<and> filter is_create (fst (deploy_to_github remote_existing (ascii ''tok'') (ascii ''o/r'') []
       (ascii ''msg'') (ascii ''main''))) = []
   \<and> snd (deploy_to_github remote_existing (ascii ''tok'') (ascii ''o/r'') []
       (ascii ''msg'') (ascii ''main'')) = Inr ()"
proof -
  let ?d = "deploy_to_github remote_existing (ascii ''tok'') (ascii ''o/r'') []
       (ascii ''msg'') (ascii ''main'')"
  have tok: "ascii ''tok'' \<noteq> []" and repo: "ascii ''o/r'' \<noteq> []"
    by (simp_all add: ascii_def)
  have gr: "get_repo remote_existing (ascii ''tok'') (ascii ''o/r'') = Inr ()"
    by (simp add: remote_existing_def)
  have gc: "get_contents remote_existing target_path (ascii ''main'')
              = Inr (ContentFile target_path (ascii ''abc123''))"
    by (simp add: remote_existing_def)
  have up: "update_file remote_existing target_path (ascii ''msg'') (json_dumps [])
              (ascii ''abc123'') (ascii ''main'') = Inr ()"
    by (simp add: remote_existing_def)
  have d: "?d = (fst ?d, snd ?d)" by simp
  from deploy_existing_updates [OF tok repo gr gc d] up show ?thesis by blast
qed

text \<open>
  C1 as stated fails: an update answered with a 404 is inside the same \<open>try\<close> as the
  fetch, so the handler turns it into a create call and the caller sees no error.
\<close>

theorem deploy_update_404_creates:
  "get_contents remote_update_404 target_path (ascii ''main'')
      = Inr (ContentFile target_path (ascii ''abc123''))
   \<and> update_file remote_update_404 target_path (ascii ''msg'') (json_dumps [])
        (ascii ''abc123'') (ascii ''main'') = Inl error_404
   \<and> filter is_create (fst (deploy_to_github remote_update_404 (ascii ''tok'') (ascii ''o/r'') []
         (ascii ''msg'') (ascii ''main'')))
      = [CreateFile target_path (ascii ''msg'') (json_dumps []) (ascii ''main'')]
   \<and> snd (deploy_to_github remote_update_404 (ascii ''tok'') (ascii ''o/r'') []
         (ascii ''msg'') (ascii ''main'')) = Inr ()"
  by (simp add: deploy_defs is_create_def remote_update_404_def remote_existing_def
      error_404_def ascii_def lower_def lower_char_def)

text \<open>
  C2. When the fetch of the target file fails with an error whose text contains \<open>404\<close>
  or, ignoring case, \<open>not found\<close>, the publisher calls create-file exactly once, with
  the serialized blueprint, and never update-file. When the text has neither marker the
  same error reaches the caller and neither create-file nor update-file is called.
\<close>

theorem deploy_fetch_failure:
  assumes "token \<noteq> []" and "repo \<noteq> []"
    and "get_repo r token repo = Inr u"
    and "get_contents r target_path branch = Inl e"
    and "deploy_to_github r token repo bp msg branch = (calls, res)"
  shows "(not_found_text (str_exn e) \<longrightarrow>
            filter is_create calls = [CreateFile target_path msg (json_dumps bp) branch]
          \<and> filter is_update calls = []
          \<and> res = create_file r target_path msg (json_dumps bp) branch)
       \<and> (\<not> not_found_text (str_exn e) \<longrightarrow>
            res = Inl e \<and> filter is_create calls = [] \<and> filter is_update calls = [])"
  using assms
  by (auto simp: deploy_defs is_update_def is_create_def marker_iff
      split: sum.splits if_splits)

theorem deploy_fetch_failure_witness:
  "not_found_text (str_exn error_404)
   \<and> filter is_create (fst (deploy_to_github remote_absent (ascii ''tok'') (ascii ''o/r'')
         [(ascii ''root/a.txt'', ascii ''hi'')] (ascii ''msg'') (ascii ''main'')))
      = [CreateFile target_path (ascii ''msg'')
           (json_dumps [(ascii ''root/a.txt'', ascii ''hi'')]) (ascii ''main'')]
   \<and> filter is_update (fst (deploy_to_github remote_absent (ascii ''tok'') (ascii ''o/r'')
         [(ascii ''root/a.txt'', ascii ''hi'')] (ascii ''msg'') (ascii ''main''))) = []"
proof -
  let ?d = "deploy_to_github remote_absent (ascii ''tok'') (ascii ''o/r'')
         [(ascii ''root/a.txt'', ascii ''hi'')] (ascii ''msg'') (ascii ''main'')"
  have tok: "ascii ''tok'' \<noteq> []" and repo: "ascii ''o/r'' \<noteq> []"
    by (simp_all add: ascii_def)
  have gr: "get_repo remote_absent (ascii ''tok'') (ascii ''o/r'') = Inr ()"
    by (simp add: remote_absent_def remote_existing_def)
  have gc: "get_contents remote_absent target_path (ascii ''main'') = Inl error_404"
    by (simp add: remote_absent_def)
  have nf: "not_found_text (str_exn error_404)"
    by (simp add: marker_iff [symmetric] error_404_def ascii_def)
  have d: "?d = (fst ?d, snd ?d)" by simp
  from deploy_fetch_failure [OF tok repo gr gc d] nf show ?thesis by blast
qed

text \<open>
  C3, as the code has it. An empty access token gives the missing-credential error, and
  an empty repository identifier with a non-empty token gives the missing-target error;
  in both cases no call reaches the remote service.
\<close>

theorem deploy_preconditions:
  "(token = [] \<longrightarrow> deploy_to_github r token repo bp msg branch = ([], Inl missing_credential))
 \<and> (token \<noteq> [] \<and> repo = [] \<longrightarrow>
       deploy_to_github r token repo bp msg branch = ([], Inl missing_target))"
  by (simp add: deploy_to_github_def missing_credential_def missing_target_def)

theorem deploy_preconditions_witness:
  "deploy_to_github remote_existing [] (ascii ''o/r'') [] (ascii ''msg'') (ascii ''main'')
     = ([], Inl missing_credential)
   \<and> deploy_to_github remote_existing (ascii ''tok'') [] [] (ascii ''msg'') (ascii ''main'')
     = ([], Inl missing_target)"
proof -
  have tok: "ascii ''tok'' \<noteq> []"
    by (simp add: ascii_def)
  from deploy_preconditions [of "[]" remote_existing "ascii ''o/r''" "[]" "ascii ''msg''"
      "ascii ''main''"]
    deploy_preconditions [of "ascii ''tok''" remote_existing "[]" "[]" "ascii ''msg''"
      "ascii ''main''"] tok
  show ?thesis by blast
qed

text \<open>
  C3 as stated fails when both are empty: the token is checked first, so an empty
  repository identifier does not give the missing-target error then.
\<close>

theorem deploy_both_empty_not_missing_target:
  "deploy_to_github remote_existing [] [] [] (ascii ''msg'') (ascii ''main'')
     = ([], Inl missing_credential)
   \<and> missing_credential \<noteq> missing_target"
  by (simp add: deploy_to_github_def missing_credential_def missing_target_def ascii_def)

text \<open>
  C9. With an empty API key the response generator raises the missing-credential error
  and no call reaches the endpoint, whatever the model and the messages.
\<close>

theorem generate_response_empty_key:
  "generate_response oa [] model_name messages = ([], Inl missing_api_key)"
  by (simp add: generate_response_def missing_api_key_def)

section \<open>Paths, trees and the loop of the blueprint builder\<close>

lemma walk_append:
  "walk chk n anc (a @ b)
     = (case walk chk n anc a of Inl e \<Rightarrow> Inl e | Inr (n', anc') \<Rightarrow> walk chk n' anc' b)"
  by (induction chk n anc a rule: walk.induct) (auto split: option.splits list.splits)

lemma walk_subnode:
  "[46, 46] \<notin> set r
   \<Longrightarrow> (case walk True n anc r of Inl e \<Rightarrow> Inl e | Inr (m, a) \<Rightarrow> Inr m) = subnode n r"
proof (induction r arbitrary: n anc)
  case Nil
  show ?case by simp
next
  case (Cons s ss)
  then show ?case by (cases n) (auto split: option.splits)
qed

lemma descendants_valid:
  "wf_node n \<Longrightarrow> r \<in> set (descendants n) \<Longrightarrow> r \<noteq> [] \<and> (\<forall>s \<in> set r. valid_name s)"
proof (induction n arbitrary: r rule: descendants.induct)
  case (1 err bs)
  then show ?case by simp
next
  case (2 r x es)
  then show ?case by (fastforce simp: list_all_iff)
qed

lemma glob_subset: "set (glob n) \<subseteq> set (descendants n)"
proof (induction n rule: glob.induct)
  case (1 err bs)
  show ?case by simp
next
  case (2 r x es)
  then show ?case by (fastforce split: if_splits)
qed

lemma glob_valid:
  "wf_node n \<Longrightarrow> r \<in> set (glob n) \<Longrightarrow> r \<noteq> [] \<and> (\<forall>s \<in> set r. valid_name s)"
  using glob_subset descendants_valid by blast

lemma open_glob: "open_node n \<Longrightarrow> glob n = descendants n"
proof (induction n rule: glob.induct)
  case (1 err bs)
  show ?case by simp
next
  case (2 r x es)
  from "2.prems" have rx: "r" "x" and ch: "\<forall>e \<in> set es. open_node (snd e)"
    by (simp_all add: list_all_iff)
  have eq: "glob (snd e) = descendants (snd e)" if "e \<in> set es" for e
    using "2.IH" [OF rx(1) that rx(2)] ch that by simp
  have "map (\<lambda>e. map ((#) (fst e)) (glob (snd e))) es
           = map (\<lambda>e. map ((#) (fst e)) (descendants (snd e))) es"
    by (rule map_cong) (simp_all add: eq)
  from arg_cong [OF this, of concat] rx show ?case by simp
qed

lemma distinct_below:
  "distinct (map fst es) \<Longrightarrow> (\<forall>e \<in> set es. distinct (g e))
   \<Longrightarrow> distinct (concat (map (\<lambda>e. map ((#) (fst e)) (g e)) es))"
  by (induction es) (auto simp: distinct_map)

lemma distinct_descendants: "wf_node n \<Longrightarrow> distinct (descendants n)"
proof (induction n rule: descendants.induct)
  case (1 err bs)
  then show ?case by simp
next
  case (2 r x es)
  have a: "distinct (map (\<lambda>e. [fst e]) es)"
    using 2(2) by (simp add: distinct_map inj_on_def distinct_conv_nth)
  have b: "distinct (concat (map (\<lambda>e. map ((#) (fst e)) (descendants (snd e))) es))"
    using 2 by (intro distinct_below) (auto simp: list_all_iff)
  have c: "p \<noteq> []" if "e \<in> set es" "p \<in> set (descendants (snd e))" for e p
    using descendants_valid [of "snd e" p] 2(2) that by (auto simp: list_all_iff)
  show ?case using a b c by auto
qed

lemma distinct_glob: "wf_node n \<Longrightarrow> distinct (glob n)"
proof (induction n rule: glob.induct)
  case (1 err bs)
  then show ?case by simp
next
  case (2 r x es)
  show ?case
  proof (cases r)
    case False
    then show ?thesis by simp
  next
    case True
    have wfc: "wf_node (snd e)" if "e \<in> set es" for e
      using "2.prems" that by (auto simp: list_all_iff)
    have a: "distinct (map (\<lambda>e. [fst e]) es)"
      using "2.prems" by (simp add: distinct_map inj_on_def distinct_conv_nth)
    have "distinct (if x then glob (snd e) else [])" if "e \<in> set es" for e
      using "2.IH" [OF True that] wfc [OF that] by simp
    then have b: "distinct (concat (map (\<lambda>e. map ((#) (fst e)) (if x then glob (snd e) else [])) es))"
      using "2.prems" by (intro distinct_below) auto
    have c: "p \<noteq> []" if "e \<in> set es" "p \<in> set (glob (snd e))" for e p
      using glob_valid [OF wfc [OF that(1)] that(2)] by simp
    show ?thesis using True a b c by (auto split: if_splits)
  qed
qed

lemma wf_walk:
  "wf_node n \<Longrightarrow> list_all wf_node anc \<Longrightarrow> walk chk n anc ps = Inr (n', anc')
   \<Longrightarrow> wf_node n' \<and> list_all wf_node anc'"
proof (induction chk n anc ps rule: walk.induct)
  case (1 chk n anc)
  then show ?case by simp
next
  case (2 chk err bs anc s ss)
  then show ?case by simp
next
  case (3 chk r x es anc s ss)
  from "3.prems"(3) have ok: "\<not> (chk \<and> \<not> x)" by (auto split: if_splits)
  show ?case
  proof (cases "s = [46, 46]")
    case True
    with 3 ok show ?thesis by (cases anc) auto
  next
    case False
    with "3.prems"(3) ok obtain c where c: "map_of es s = Some c"
      by (auto split: option.splits)
    then have "(s, c) \<in> set es" by (rule map_of_SomeD)
    with "3.prems"(1) have "wf_node c" by (auto simp: list_all_iff)
    with 3 ok False c show ?thesis by auto
  qed
qed

lemma wf_resolve:
  assumes "wf_node (fs_root f)" and "resolve f p = Inr (n, anc)"
  shows "wf_node n \<and> list_all wf_node anc"
proof (cases "absolute p")
  case True
  with assms wf_walk [of "fs_root f" "[]" True "parts p" n anc] show ?thesis
    by (simp add: resolve_def)
next
  case False
  with assms(2) obtain m a where m: "walk False (fs_root f) [] (fs_cwd f) = Inr (m, a)"
    and w: "walk True m a (parts p) = Inr (n, anc)"
    by (auto simp: resolve_def split: sum.splits)
  from wf_walk [OF assms(1) _ m] have "wf_node m \<and> list_all wf_node a" by simp
  with wf_walk [OF _ _ w] show ?thesis by simp
qed

lemma wf_stat: "wf_node (fs_root f) \<Longrightarrow> stat f p = Inr n \<Longrightarrow> wf_node n"
  using wf_resolve [of f p n] by (auto simp: stat_def split: sum.splits)

lemma resolve_joinpath:
  "resolve f (joinpath folder r)
     = (case resolve f folder of Inl e \<Rightarrow> Inl e | Inr (n, anc) \<Rightarrow> walk True n anc r)"
  by (auto simp: resolve_def joinpath_def walk_append split: sum.splits)

lemma stat_joinpath:
  assumes "stat f folder = Inr n" and "[46, 46] \<notin> set r"
  shows "stat f (joinpath folder r) = subnode n r"
proof -
  from assms(1) obtain anc where w: "resolve f folder = Inr (n, anc)"
    by (auto simp: stat_def split: sum.splits)
  have "stat f (joinpath folder r)
      = (case walk True n anc r of Inl e \<Rightarrow> Inl e | Inr (m, a) \<Rightarrow> Inr m)"
    by (simp add: stat_def resolve_joinpath w)
  also have "\<dots> = subnode n r"
    using assms(2) by (rule walk_subnode)
  finally show ?thesis .
qed

lemma py_join_Cons:
  "py_join sep (x # xs) = x @ (if xs = [] then [] else sep @ py_join sep xs)"
  by (cases xs) auto

lemma segment_eq:
  "(47::nat) \<notin> set x \<Longrightarrow> 47 \<notin> set y \<Longrightarrow> x @ A = y @ B
   \<Longrightarrow> A = [] \<or> hd A = 47 \<Longrightarrow> B = [] \<or> hd B = 47 \<Longrightarrow> x = y \<and> A = B"
proof (induction x arbitrary: y)
  case Nil
  then show ?case by (cases y) auto
next
  case (Cons a x)
  show ?case
  proof (cases y)
    case Nil
    with Cons.prems show ?thesis by auto
  next
    case (Cons c y')
    with Cons.prems Cons.IH [of y'] show ?thesis by auto
  qed
qed

lemma py_join_tail:
  "py_join [47::nat] (x # xs) = x @ A \<Longrightarrow> A = [] \<or> hd A = 47"
  by (cases xs) auto

lemma py_join_inj:
  "\<forall>s \<in> set xs. (47::nat) \<notin> set s \<Longrightarrow> \<forall>s \<in> set ys. 47 \<notin> set s \<Longrightarrow> xs \<noteq> [] \<Longrightarrow> ys \<noteq> []
   \<Longrightarrow> py_join [47] xs = py_join [47] ys \<Longrightarrow> xs = ys"
proof (induction xs arbitrary: ys)
  case Nil
  then show ?case by simp
next
  case (Cons x xs)
  from Cons.prems(4) obtain y ys' where ys: "ys = y # ys'" by (cases ys) auto
  obtain A where A: "py_join [47] (x # xs) = x @ A" "xs = [] \<longrightarrow> A = []"
    "xs \<noteq> [] \<longrightarrow> A = 47 # py_join [47] xs"
    by (cases xs) auto
  obtain B where B: "py_join [47] (y # ys') = y @ B" "ys' = [] \<longrightarrow> B = []"
    "ys' \<noteq> [] \<longrightarrow> B = 47 # py_join [47] ys'"
    by (cases ys') auto
  have eq: "x @ A = y @ B"
    using Cons.prems(5) A(1) B(1) by (simp only: ys)
  have "x = y \<and> A = B"
  proof (rule segment_eq [OF _ _ eq])
    show "47 \<notin> set x" using Cons.prems(1) by simp
    show "47 \<notin> set y" using Cons.prems(2) ys by simp
    show "A = [] \<or> hd A = 47" using A(1) by (rule py_join_tail)
    show "B = [] \<or> hd B = 47" using B(1) by (rule py_join_tail)
  qed
  then have xy: "x = y" and AB: "A = B" by simp_all
  show ?case
  proof (cases "xs = []")
    case True
    with A(2) AB B(3) have "ys' = []" by (cases "ys' = []") auto
    with True xy ys show ?thesis by simp
  next
    case False
    with A(3) AB B(2) have ne: "ys' \<noteq> []" by (cases "ys' = []") auto
    with False A(3) B(3) AB have "py_join [47] xs = py_join [47] ys'" by simp
    moreover have "\<forall>s \<in> set xs. 47 \<notin> set s" "\<forall>s \<in> set ys'. 47 \<notin> set s"
      using Cons.prems(1,2) ys by simp_all
    ultimately have "xs = ys'" using False ne by (intro Cons.IH)
    with xy ys show ?thesis by simp
  qed
qed

lemma key_of_join:
  "r \<noteq> [] \<Longrightarrow>
   key_of folder r = py_join [47] ((if parts folder = [] then [] else [last (parts folder)]) @ r)"
  by (simp add: key_of_def as_posix_def str_path_def)

lemma key_of_inj:
  assumes "r \<noteq> []" "r' \<noteq> []" "\<forall>s \<in> set r. valid_name s" "\<forall>s \<in> set r'. valid_name s"
    and "key_of folder r = key_of folder r'"
  shows "r = r'"
proof -
  have "py_join [47] r = py_join [47] r'"
    using assms(1,2,5) by (auto simp: key_of_join py_join_Cons split: if_splits)
  with assms(1-4) show ?thesis
    by (intro py_join_inj) (auto simp: valid_name_def)
qed

lemma relative_to_joinpath:
  "relative_to (joinpath folder r) (parent folder)
     = Inr (Path False ((if parts folder = [] then [] else [last (parts folder)]) @ r))"
proof (cases "parts folder = []")
  case True
  then show ?thesis by (simp add: relative_to_def joinpath_def parent_def)
next
  case False
  then have "parts folder = butlast (parts folder) @ [last (parts folder)]" by simp
  then have "drop (length (butlast (parts folder))) (parts folder @ r) = last (parts folder) # r"
    by (metis append_Cons append_Nil append_assoc append_eq_conv_conj)
  moreover have "prefix (butlast (parts folder)) (parts folder @ r)"
    by (metis prefixI append_butlast_last_id False append_assoc)
  ultimately show ?thesis using False
    by (simp add: relative_to_def joinpath_def parent_def)
qed

lemma dict_set_fresh: "k \<notin> fst ` set d \<Longrightarrow> dict_set d k v = d @ [(k, v)]"
  by (induction d) auto

lemma append_le_append: "(c @ a \<le> c @ b) = (a \<le> (b :: ('a::linorder) list))"
  by (induction c) auto

lemma insort_key_prefix:
  "insort_key (\<lambda>r. c @ g r) x xs = insort_key (g :: 'b \<Rightarrow> ('a::linorder) list) x xs"
  by (induction xs) (auto simp: append_le_append)

lemma sort_key_prefix:
  "sort_key (\<lambda>r. c @ g r) xs = sort_key (g :: 'b \<Rightarrow> ('a::linorder) list) xs"
  by (induction xs) (auto simp: insort_key_prefix)

lemma insort_key_map:
  "insort_key f (g x) (map g xs) = map g (insort_key (\<lambda>x. f (g x)) x xs)"
  by (induction xs) auto

lemma sort_key_map: "sort_key f (map g xs) = map g (sort_key (\<lambda>x. f (g x)) xs)"
  by (induction xs) (auto simp: insort_key_map)

lemma sorted_paths_joinpath:
  "sorted_paths (map (joinpath folder) ds) = map (joinpath folder) (sort ds)"
proof -
  have "(\<lambda>r. cparts (joinpath folder r)) = (\<lambda>r. cparts folder @ (\<lambda>x. x) r)"
    by (auto simp: cparts_def joinpath_def fun_eq_iff)
  then show ?thesis
    by (simp add: sorted_paths_def sort_key_map sort_key_prefix)
qed


lemma build_loop_ok:
  "\<forall>r \<in> set rs. r \<noteq> [] \<and> (\<forall>s \<in> set r. valid_name s) \<Longrightarrow> distinct rs
   \<Longrightarrow> \<forall>r \<in> set rs. key_of folder r \<notin> fst ` set bp
   \<Longrightarrow> \<forall>r \<in> set rs. \<exists>b. is_file f (joinpath folder r) = Inr b
   \<Longrightarrow> build_loop f folder (map (joinpath folder) rs) bp
       = Inr (bp @ List.map_filter (entry_of f folder)
                     (filter (\<lambda>r. is_file f (joinpath folder r) = Inr True) rs))"
proof (induction rs arbitrary: bp)
  case Nil
  show ?case by (simp add: List.map_filter_simps)
next
  case (Cons r rs)
  have rel: "relative_to (joinpath folder r) (parent folder)
     = Inr (Path False ((if parts folder = [] then [] else [last (parts folder)]) @ r))"
    by (rule relative_to_joinpath)
  have k: "as_posix (Path False ((if parts folder = [] then [] else [last (parts folder)]) @ r))
            = key_of folder r"
    by (simp add: key_of_def)
  from Cons.prems(4) obtain b where b: "is_file f (joinpath folder r) = Inr b" by auto
  have IH0: "build_loop f folder (map (joinpath folder) rs) bp
       = Inr (bp @ List.map_filter (entry_of f folder)
                     (filter (\<lambda>r. is_file f (joinpath folder r) = Inr True) rs))"
    using Cons.prems by (intro Cons.IH) auto
  show ?case
  proof (cases b)
    case False
    with b show ?thesis using IH0 by simp
  next
    case True
    show ?thesis
    proof (cases "read_text f (joinpath folder r)")
      case (Inl e)
      then have "entry_of f folder r = None" by (simp add: entry_of_def)
      then show ?thesis using True b Inl IH0 rel
        by (simp add: List.map_filter_simps)
    next
      case (Inr t)
      have fresh: "key_of folder r \<notin> fst ` set bp" using Cons.prems(3) by simp
      have others: "\<forall>r' \<in> set rs. key_of folder r' \<notin> fst ` set (bp @ [(key_of folder r, t)])"
      proof
        fix r' assume r': "r' \<in> set rs"
        with Cons.prems(2) have "r' \<noteq> r" by auto
        with key_of_inj [of r' r folder] Cons.prems(1) r' have "key_of folder r' \<noteq> key_of folder r"
          by auto
        with Cons.prems(3) r' show "key_of folder r' \<notin> fst ` set (bp @ [(key_of folder r, t)])"
          by auto
      qed
      have IH1: "build_loop f folder (map (joinpath folder) rs) (bp @ [(key_of folder r, t)])
         = Inr ((bp @ [(key_of folder r, t)]) @ List.map_filter (entry_of f folder)
                     (filter (\<lambda>r. is_file f (joinpath folder r) = Inr True) rs))"
        using Cons.prems others by (intro Cons.IH) auto
      have "entry_of f folder r = Some (key_of folder r, t)" using Inr by (simp add: entry_of_def)
      then show ?thesis using True b Inr rel k IH1 fresh
        by (simp add: List.map_filter_simps dict_set_fresh)
    qed
  qed
qed

lemma build_loop_returns:
  "build_loop f folder ps bp = Inr bp' \<Longrightarrow> \<forall>p \<in> set ps. \<exists>b. is_file f p = Inr b"
proof (induction ps arbitrary: bp)
  case Nil
  show ?case by simp
next
  case (Cons p ps)
  from Cons.prems obtain b where b: "is_file f p = Inr b"
    by (cases "is_file f p") auto
  from Cons.prems b obtain bp0 where "build_loop f folder ps bp0 = Inr bp'"
    by (auto simp: Let_def split: sum.splits if_splits)
  from Cons.IH [OF this] b show ?case by simp
qed

lemma build_loop_raises:
  "build_loop f folder (map (joinpath folder) rs) bp = Inl e
   \<Longrightarrow> \<exists>r \<in> set rs. is_file f (joinpath folder r) = Inl e"
proof (induction rs arbitrary: bp)
  case Nil
  then show ?case by simp
next
  case (Cons r rs)
  show ?case
  proof (cases "is_file f (joinpath folder r)")
    case (Inl e')
    with Cons.prems show ?thesis by simp
  next
    case (Inr b)
    with Cons.prems obtain bp0 where "build_loop f folder (map (joinpath folder) rs) bp0 = Inl e"
      by (auto simp: Let_def relative_to_joinpath split: sum.splits if_splits)
    from Cons.IH [OF this] show ?thesis by auto
  qed
qed

lemma build_unfold:
  assumes "stat f folder = Inr (Dir r x es)"
  shows "build_blueprint_from_folder f folder
       = build_loop f folder (map (joinpath folder) (sort (glob (Dir r x es)))) []"
  using assms
  by (simp add: build_blueprint_from_folder_def exists_def is_dir_def rglob_def
      sorted_paths_joinpath del: glob.simps)

lemma build_returned:
  assumes wf: "wf_node (fs_root f)" and st: "stat f folder = Inr (Dir r x es)"
    and b: "build_blueprint_from_folder f folder = Inr bp"
  shows "bp = List.map_filter (entry_of f folder)
               (filter (\<lambda>p. is_file f (joinpath folder p) = Inr True) (sort (glob (Dir r x es))))"
proof -
  have wfn: "wf_node (Dir r x es)" using wf st by (rule wf_stat)
  let ?rs = "sort (glob (Dir r x es))"
  have l: "build_loop f folder (map (joinpath folder) ?rs) [] = Inr bp"
    using b build_unfold [OF st] by simp
  have v: "\<forall>p \<in> set ?rs. p \<noteq> [] \<and> (\<forall>s \<in> set p. valid_name s)"
    using glob_valid [OF wfn] by auto
  have d: "distinct ?rs"
    using distinct_glob [OF wfn] by simp
  have ok: "\<forall>p \<in> set ?rs. \<exists>b. is_file f (joinpath folder p) = Inr b"
    using build_loop_returns [OF l] by simp
  have "build_loop f folder (map (joinpath folder) ?rs) []
      = Inr ([] @ List.map_filter (entry_of f folder)
               (filter (\<lambda>p. is_file f (joinpath folder p) = Inr True) ?rs))"
    using v d ok by (intro build_loop_ok) auto
  with l show ?thesis by simp
qed

lemma open_subnode:
  "wf_node n \<Longrightarrow> open_node n \<Longrightarrow> p \<in> set (descendants n) \<Longrightarrow> \<exists>m. subnode n p = Inr m"
proof (induction n arbitrary: p rule: descendants.induct)
  case (1 err bs)
  then show ?case by simp
next
  case (2 r x es)
  from "2.prems"(3) consider e where "e \<in> set es" "p = [fst e]"
    | e q where "e \<in> set es" "q \<in> set (descendants (snd e))" "p = fst e # q"
    by auto
  then show ?case
  proof cases
    case 1
    with "2.prems" have "map_of es (fst e) = Some (snd e)" by (cases e) simp
    with 1 "2.prems"(2) show ?thesis by simp
  next
    case 2
    with "2.prems" have m: "map_of es (fst e) = Some (snd e)" by (cases e) simp
    from 2 "2.prems" have "wf_node (snd e)" "open_node (snd e)" by (auto simp: list_all_iff)
    from "2.IH" [OF 2(1) this 2(2)] obtain k where "subnode (snd e) q = Inr k" by blast
    with 2 m "2.prems"(2) show ?thesis by simp
  qed
qed

lemma build_char:
  assumes wf: "wf_node (fs_root f)" and st: "stat f folder = Inr (Dir r x es)"
    and op: "open_node (Dir r x es)"
  shows "build_blueprint_from_folder f folder
       = Inr (List.map_filter (entry_of f folder)
               (filter (\<lambda>p. is_file f (joinpath folder p) = Inr True)
                  (sort (descendants (Dir r x es)))))"
proof -
  have wfn: "wf_node (Dir r x es)" using wf st by (rule wf_stat)
  let ?rs = "sort (descendants (Dir r x es))"
  have v: "\<forall>p \<in> set ?rs. p \<noteq> [] \<and> (\<forall>s \<in> set p. valid_name s)"
    using descendants_valid [OF wfn] by auto
  have d: "distinct ?rs"
    using distinct_descendants [OF wfn] by simp
  have ok: "\<forall>p \<in> set ?rs. \<exists>b. is_file f (joinpath folder p) = Inr b"
  proof
    fix p assume "p \<in> set ?rs"
    then have p: "p \<in> set (descendants (Dir r x es))" by simp
    with descendants_valid [OF wfn] have "[46, 46] \<notin> set p" by (auto simp: valid_name_def)
    from stat_joinpath [OF st this] open_subnode [OF wfn op p]
    obtain m where "stat f (joinpath folder p) = Inr m" by auto
    then show "\<exists>b. is_file f (joinpath folder p) = Inr b"
      by (cases m) (auto simp: is_file_def)
  qed
  have "build_blueprint_from_folder f folder
      = build_loop f folder (map (joinpath folder) ?rs) []"
    using build_unfold [OF st] open_glob [OF op] by simp
  also have "\<dots> = Inr ([] @ List.map_filter (entry_of f folder)
               (filter (\<lambda>p. is_file f (joinpath folder p) = Inr True) ?rs))"
    using v d ok by (intro build_loop_ok) auto
  finally show ?thesis by simp
qed

section \<open>The blueprint builder\<close>

lemmas fs_eval_defs = build_blueprint_from_folder_def exists_def is_dir_def is_file_def
  stat_def resolve_def rglob_def joinpath_def sorted_paths_def cparts_def relative_to_def
  parent_def as_posix_def str_path_def read_text_def ascii_def cont_def valid_name_def
  enoent_def eacces_def enotdir_def eisdir_def

lemma set_map_filter: "set (List.map_filter g xs) = {y. \<exists>x \<in> set xs. g x = Some y}"
  by (induction xs) (auto simp: List.map_filter_simps split: option.splits)

lemma entry_of_key: "entry_of f folder r = Some (k, t) \<Longrightarrow> k = key_of folder r"
  by (auto simp: entry_of_def split: sum.splits)

lemma key_of_inj_on:
  "wf_node n \<Longrightarrow> inj_on (key_of folder) (set (descendants n))"
  by (rule inj_onI) (metis descendants_valid key_of_inj)

lemma keys_entries:
  "fst ` set (List.map_filter (entry_of f folder) (filter P xs)) \<subseteq> key_of folder ` set xs"
  by (auto simp: set_map_filter dest!: entry_of_key)

lemma map_of_entries:
  "inj_on (key_of folder) (set xs) \<Longrightarrow> r \<in> set xs
   \<Longrightarrow> map_of (List.map_filter (entry_of f folder) (filter P xs)) (key_of folder r)
       = (if P r then map_option snd (entry_of f folder r) else None)"
proof (induction xs)
  case Nil
  then show ?case by simp
next
  case (Cons x xs)
  let ?rest = "List.map_filter (entry_of f folder) (filter P xs)"
  have inj: "inj_on (key_of folder) (set xs)" using Cons.prems(1) by (simp add: inj_on_def)
  have rest: "map_of ?rest (key_of folder r)
      = (if P r then map_option snd (entry_of f folder r) else None)" if "r \<in> set xs"
    using Cons.IH [OF inj that] .
  have absent: "map_of ?rest (key_of folder x) = None" if "x \<notin> set xs"
  proof -
    have "key_of folder x \<notin> key_of folder ` set xs"
      using Cons.prems(1) that by (auto simp: inj_on_def)
    with keys_entries [of f folder P xs] have "key_of folder x \<notin> fst ` set ?rest" by blast
    then show ?thesis by (simp add: map_of_eq_None_iff)
  qed
  show ?case
  proof (cases "P x \<and> entry_of f folder x \<noteq> None")
    case True
    then obtain t where t: "entry_of f folder x = Some (key_of folder x, t)"
      using entry_of_key by (cases "entry_of f folder x") fastforce+
    have head: "List.map_filter (entry_of f folder) (filter P (x # xs))
        = (key_of folder x, t) # ?rest"
      using True t by (simp add: List.map_filter_simps)
    show ?thesis
    proof (cases "r = x")
      case True
      with head t \<open>P x \<and> _\<close> show ?thesis by simp
    next
      case False
      with Cons.prems have rx: "r \<in> set xs" by simp
      with Cons.prems(1) False have "key_of folder r \<noteq> key_of folder x"
        by (auto simp: inj_on_def)
      with head rest [OF rx] show ?thesis by simp
    qed
  next
    case False
    then have head: "List.map_filter (entry_of f folder) (filter P (x # xs)) = ?rest"
      by (cases "entry_of f folder x") (auto simp: List.map_filter_simps)
    show ?thesis
    proof (cases "r \<in> set xs")
      case True
      with head rest show ?thesis by simp
    next
      case nin: False
      with Cons.prems have "r = x" by simp
      with nin head absent False show ?thesis
        by (cases "entry_of f folder x") auto
    qed
  qed
qed

lemma map_fst_entries:
  "map fst (List.map_filter (entry_of f folder) xs)
     = map (key_of folder) (filter (\<lambda>r. entry_of f folder r \<noteq> None) xs)"
  by (induction xs) (auto simp: List.map_filter_simps dest: entry_of_key split: option.splits)

lemma descendants_no_dotdot:
  "wf_node n \<Longrightarrow> r \<in> set (descendants n) \<Longrightarrow> [46, 46] \<notin> set r"
  using descendants_valid [of n r] by (auto simp: valid_name_def)

text \<open>
  C6, as the code has it. When \<open>exists\<close> or \<open>is_dir\<close> answers no, the builder returns the
  empty mapping. \<open>exists\<close> answers no when the lookup of the path fails with an error that
  pathlib ignores (no such entry, not a directory); when the lookup fails with any other
  error, \<open>exists\<close> raises it and so does the builder.
\<close>

theorem build_guard:
  "(exists f folder = Inr False \<or> is_dir f folder = Inr False
      \<longrightarrow> build_blueprint_from_folder f folder = Inr [])
   \<and> (\<forall>e. stat f folder = Inl e \<and> ignore_error e
         \<longrightarrow> exists f folder = Inr False \<and> build_blueprint_from_folder f folder = Inr [])
   \<and> (\<forall>e. stat f folder = Inl e \<and> \<not> ignore_error e
         \<longrightarrow> exists f folder = Inl e \<and> build_blueprint_from_folder f folder = Inl e)"
  by (cases "stat f folder")
    (auto simp: build_blueprint_from_folder_def exists_def is_dir_def split: node.splits)

theorem build_guard_witness:
  "exists (fs_of sample_tree) (Path False [ascii ''missing'']) = Inr False
   \<and> build_blueprint_from_folder (fs_of sample_tree) (Path False [ascii ''missing'']) = Inr []
   \<and> is_dir (fs_of sample_tree) (Path False [ascii ''root'', ascii ''a.txt'']) = Inr False
   \<and> build_blueprint_from_folder (fs_of sample_tree) (Path False [ascii ''root'', ascii ''a.txt''])
       = Inr []"
proof -
  have a: "exists (fs_of sample_tree) (Path False [ascii ''missing'']) = Inr False"
    by (simp add: fs_eval_defs fs_of_def sample_tree_def)
  have b: "is_dir (fs_of sample_tree) (Path False [ascii ''root'', ascii ''a.txt'']) = Inr False"
    by (simp add: fs_eval_defs fs_of_def sample_tree_def)
  from build_guard [of "fs_of sample_tree" "Path False [ascii ''missing'']"]
    build_guard [of "fs_of sample_tree" "Path False [ascii ''root'', ascii ''a.txt'']"] a b
  show ?thesis by blast
qed

text \<open>
  C6 as stated fails: \<open>root/missing\<close> names nothing in the tree, but \<open>root\<close> cannot be
  searched, so the lookup fails with a permission error, which \<open>exists\<close> raises again.
\<close>

theorem build_missing_path_raises:
  "walk False (fs_root (fs_of locked_dir)) [] [ascii ''proj'', ascii ''root'', ascii ''missing'']
     = Inl enoent
   \<and> stat (fs_of locked_dir) (Path False [ascii ''root'', ascii ''missing'']) = Inl eacces
   \<and> build_blueprint_from_folder (fs_of locked_dir) (Path False [ascii ''root'', ascii ''missing''])
       = Inl eacces"
  by (simp add: fs_eval_defs fs_of_def locked_dir_def)


lemma stat_parent:
  assumes "stat f folder = Inr n" and "parts folder \<noteq> []"
    and "last (parts folder) \<noteq> [46, 46]"
  shows "\<exists>r x es. stat f (parent folder) = Inr (Dir r x es)
           \<and> map_of es (last (parts folder)) = Some n"
proof -
  define l where "l = last (parts folder)"
  have fo: "folder = joinpath (parent folder) [l]"
    using assms(2) by (cases folder) (simp add: joinpath_def parent_def l_def)
  from assms(1) obtain anc where "resolve f folder = Inr (n, anc)"
    by (auto simp: stat_def split: sum.splits)
  then have "resolve f (joinpath (parent folder) [l]) = Inr (n, anc)"
    using fo by simp
  then obtain m a where m: "resolve f (parent folder) = Inr (m, a)"
    and step: "walk True m a [l] = Inr (n, anc)"
    by (auto simp: resolve_joinpath split: sum.splits)
  from step assms(3) obtain r x es where es: "m = Dir r x es" "map_of es l = Some n"
    by (cases m) (auto simp: l_def split: option.splits if_splits)
  have "stat f (parent folder) = Inr m"
    using m by (simp add: stat_def)
  with es show ?thesis by (auto simp: l_def)
qed

text \<open>
  Where the builder returns and the root path ends in the name of the directory (it has
  a segment, and the last one is not \<open>..\<close>), every key of the blueprint is the path of
  a file below the root directory, taken relative to the parent of the root path: the
  name under which the parent directory lists the root directory, then the segments
  down to the file, joined by slashes, no segment containing a slash.
\<close>

lemma build_keys_relative_to_parent:
  assumes "wf_node (fs_root f)"
    and "parts folder \<noteq> []" and "last (parts folder) \<noteq> [46, 46]"
    and "build_blueprint_from_folder f folder = Inr bp" and "(k, v) \<in> set bp"
  shows "\<exists>p r x es n. p \<noteq> [] \<and> (\<forall>s \<in> set p. 47 \<notin> set s)
           \<and> is_file f (joinpath folder p) = Inr True
           \<and> stat f folder = Inr n
           \<and> stat f (parent folder) = Inr (Dir r x es)
           \<and> map_of es (last (parts folder)) = Some n
           \<and> relative_to (joinpath folder p) (parent folder)
               = Inr (Path False (last (parts folder) # p))
           \<and> k = py_join [47] (last (parts folder) # p)"
proof (cases "stat f folder")
  case (Inl e)
  with assms(4,5) show ?thesis
    by (auto simp: build_blueprint_from_folder_def exists_def is_dir_def split: if_splits)
next
  case (Inr n)
  show ?thesis
  proof (cases n)
    case (File err bs)
    with Inr assms(4,5) show ?thesis
      by (simp add: build_blueprint_from_folder_def exists_def is_dir_def)
  next
    case (Dir r x es)
    with Inr have st: "stat f folder = Inr (Dir r x es)" by simp
    have wfn: "wf_node (Dir r x es)" using assms(1) st by (rule wf_stat)
    from stat_parent [OF st assms(2,3)] obtain r' x' es' where
      par: "stat f (parent folder) = Inr (Dir r' x' es')"
        "map_of es' (last (parts folder)) = Some (Dir r x es)"
      by auto
    from build_returned [OF assms(1) st assms(4)] assms(5)
    obtain p where p: "p \<in> set (glob (Dir r x es))" "is_file f (joinpath folder p) = Inr True"
      "entry_of f folder p = Some (k, v)"
      by (auto simp: set_map_filter)
    from glob_valid [OF wfn p(1)]
    have ne: "p \<noteq> []" and val: "\<forall>s \<in> set p. valid_name s" by simp_all
    have "k = key_of folder p" using p(3) by (rule entry_of_key)
    with ne assms(2) have "k = py_join [47] (last (parts folder) # p)"
      by (simp add: key_of_join)
    moreover have "relative_to (joinpath folder p) (parent folder)
               = Inr (Path False (last (parts folder) # p))"
      using assms(2) by (simp add: relative_to_joinpath)
    moreover have "\<forall>s \<in> set p. 47 \<notin> set s" using val by (simp add: valid_name_def)
    ultimately show ?thesis using ne p(2) par st by blast
  qed
qed



text \<open>
  C5, as the code has it. For a directory in which every directory can be listed and
  searched, the builder returns a mapping with distinct keys; distinct entries below the
  directory have distinct keys; every key is the key of an entry below the directory;
  and the entry at \<open>p\<close> is in the mapping exactly when it is a file that can be read and
  whose bytes decode as UTF-8, with the decoded text as its value. Directories,
  unreadable files and files that do not decode have no entry, and no error is raised.
\<close>

theorem build_entries:
  assumes "wf_node (fs_root f)" and "stat f folder = Inr (Dir r x es)"
    and "open_node (Dir r x es)"
  shows "\<exists>bp. build_blueprint_from_folder f folder = Inr bp
           \<and> distinct (map fst bp)
           \<and> inj_on (key_of folder) (set (descendants (Dir r x es)))
           \<and> fst ` set bp \<subseteq> key_of folder ` set (descendants (Dir r x es))
           \<and> (\<forall>p \<in> set (descendants (Dir r x es)).
                 map_of bp (key_of folder p)
                   = (case subnode (Dir r x es) p of
                        Inr (File None bs) \<Rightarrow> map_option universal_newlines (utf8_decode bs)
                      | _ \<Rightarrow> None))"
proof -
  let ?n = "Dir r x es"
  let ?rs = "sort (descendants ?n)"
  let ?P = "\<lambda>p. is_file f (joinpath folder p) = Inr True"
  define bp where "bp = List.map_filter (entry_of f folder) (filter ?P ?rs)"
  have wfn: "wf_node ?n" using assms(1,2) by (rule wf_stat)
  have b: "build_blueprint_from_folder f folder = Inr bp"
    unfolding bp_def by (rule build_char [OF assms])
  have d: "distinct ?rs" using distinct_descendants [OF wfn] by simp
  have i: "inj_on (key_of folder) (set ?rs)" using key_of_inj_on [OF wfn] by simp
  have dk: "distinct (map fst bp)"
    unfolding bp_def map_fst_entries using d i
    by (auto simp: distinct_map intro: inj_on_subset)
  have sub: "fst ` set bp \<subseteq> key_of folder ` set (descendants ?n)"
    unfolding bp_def using keys_entries [of f folder ?P ?rs] by simp
  have look: "map_of bp (key_of folder p)
          = (case subnode ?n p of
               Inr (File None bs) \<Rightarrow> map_option universal_newlines (utf8_decode bs)
             | _ \<Rightarrow> None)" if p: "p \<in> set (descendants ?n)" for p
  proof -
    have nd: "[46, 46] \<notin> set p" using wfn p by (rule descendants_no_dotdot)
    have s: "stat f (joinpath folder p) = subnode ?n p"
      using assms(2) nd by (rule stat_joinpath)
    have "map_of bp (key_of folder p)
        = (if ?P p then map_option snd (entry_of f folder p) else None)"
      unfolding bp_def using i p by (intro map_of_entries) simp_all
    then show ?thesis
      by (cases "subnode ?n p")
        (auto simp: is_file_def entry_of_def read_text_def s
          split: node.splits option.splits sum.splits if_splits)
  qed
  from b dk sub look key_of_inj_on [OF wfn] show ?thesis by blast
qed

theorem build_entries_witness:
  "wf_node (fs_root (fs_of sample_tree))
   \<and> stat (fs_of sample_tree) root_path = Inr sample_tree
   \<and> open_node sample_tree
   \<and> utf8_decode [255, 254, 0] = None
   \<and> build_blueprint_from_folder (fs_of sample_tree) root_path
       = Inr [(ascii ''root/a.txt'', ascii ''hi'')]
   \<and> (\<exists>bp. build_blueprint_from_folder (fs_of sample_tree) root_path = Inr bp
         \<and> map_of bp (key_of root_path [ascii ''a.txt'']) = Some (ascii ''hi'')
         \<and> map_of bp (key_of root_path [ascii ''sub'', ascii ''b.bin'']) = None
         \<and> map_of bp (key_of root_path [ascii ''sub'']) = None)"
proof -
  let ?es = "[(ascii ''a.txt'', File None [104, 105]),
              (ascii ''sub'', Dir True True [(ascii ''b.bin'', File None [255, 254, 0])])]"
  have wf: "wf_node (fs_root (fs_of sample_tree))"
    by (simp add: fs_eval_defs fs_of_def sample_tree_def)
  have st: "stat (fs_of sample_tree) root_path = Inr (Dir True True ?es)"
    by (simp add: fs_eval_defs fs_of_def sample_tree_def root_path_def)
  have op: "open_node (Dir True True ?es)"
    by simp
  have d: "utf8_decode [255, 254, 0] = None"
    by simp
  have b: "build_blueprint_from_folder (fs_of sample_tree) root_path
       = Inr [(ascii ''root/a.txt'', ascii ''hi'')]"
    by (simp add: fs_eval_defs fs_of_def sample_tree_def root_path_def)
  from build_entries [OF wf st op] obtain bp where
    bp: "build_blueprint_from_folder (fs_of sample_tree) root_path = Inr bp"
    and look: "\<forall>p \<in> set (descendants (Dir True True ?es)).
                 map_of bp (key_of root_path p)
                   = (case subnode (Dir True True ?es) p of
                        Inr (File None bs) \<Rightarrow> map_option universal_newlines (utf8_decode bs)
                      | _ \<Rightarrow> None)"
    by blast
  have "[ascii ''a.txt''] \<in> set (descendants (Dir True True ?es))"
    "[ascii ''sub'', ascii ''b.bin''] \<in> set (descendants (Dir True True ?es))"
    "[ascii ''sub''] \<in> set (descendants (Dir True True ?es))"
    by (simp_all add: ascii_def)
  with look have
    "map_of bp (key_of root_path [ascii ''a.txt'']) = Some (ascii ''hi'')"
    "map_of bp (key_of root_path [ascii ''sub'', ascii ''b.bin'']) = None"
    "map_of bp (key_of root_path [ascii ''sub'']) = None"
    by (simp_all add: ascii_def)
  with bp wf st op d b show ?thesis by (simp add: sample_tree_def)
qed

text \<open>
  C5 as stated fails in three ways. A file whose bytes are valid UTF-8 but which cannot
  be read has no entry. A readable file with valid UTF-8 inside a directory that cannot
  be listed is never visited and has no entry. And a file inside a directory that can
  be listed but not searched makes \<open>is_file\<close> raise, outside the \<open>try\<close>: the error is
  surfaced.
\<close>

theorem build_omits_or_raises:
  "stat (fs_of unreadable_tree) (joinpath root_path [ascii ''a.txt''])
     = Inr (File (Some eacces) [104, 105])
   \<and> utf8_decode [104, 105] = Some (ascii ''hi'')
   \<and> build_blueprint_from_folder (fs_of unreadable_tree) root_path = Inr []
   \<and> read_text (fs_of unlisted_tree) (joinpath root_path [ascii ''sub'', ascii ''b.txt''])
       = Inr (ascii ''ok'')
   \<and> build_blueprint_from_folder (fs_of unlisted_tree) root_path
       = Inr [(ascii ''root/a.txt'', ascii ''hi'')]
   \<and> utf8_decode [111, 107] = Some (ascii ''ok'')
   \<and> build_blueprint_from_folder (fs_of unsearchable_tree) root_path = Inl eacces"
  by (simp add: fs_eval_defs fs_of_def unreadable_tree_def unlisted_tree_def
      unsearchable_tree_def root_path_def)

text \<open>
  C10, as the code has it. A file whose \<open>read_text\<close> fails, with whatever exception (a
  decoding error, a permission error, an I/O error), is passed over by the loop: when
  the builder returns, the blueprint has no entry for it, and when the builder raises,
  the exception is one that \<open>is_file\<close> raised for some entry, never the one of the read.
\<close>

theorem build_skips_failed_reads:
  assumes "wf_node (fs_root f)" and "stat f folder = Inr (Dir r x es)"
    and "p \<in> set (glob (Dir r x es))"
    and "is_file f (joinpath folder p) = Inr True"
    and "read_text f (joinpath folder p) = Inl e"
  shows "(\<forall>ps bp. build_loop f folder (joinpath folder p # ps) bp = build_loop f folder ps bp)
       \<and> (\<forall>bp. build_blueprint_from_folder f folder = Inr bp
             \<longrightarrow> key_of folder p \<notin> fst ` set bp)
       \<and> (\<forall>e'. build_blueprint_from_folder f folder = Inl e'
             \<longrightarrow> (\<exists>q \<in> set (glob (Dir r x es)). is_file f (joinpath folder q) = Inl e'))"
proof -
  let ?n = "Dir r x es"
  let ?rs = "sort (glob ?n)"
  have wfn: "wf_node ?n" using assms(1,2) by (rule wf_stat)
  have step: "build_loop f folder (joinpath folder p # ps) bp = build_loop f folder ps bp"
    for ps bp
    using assms(4,5) by (simp add: relative_to_joinpath)
  have absent: "key_of folder p \<notin> fst ` set bp"
    if b: "build_blueprint_from_folder f folder = Inr bp" for bp
  proof -
    have "set ?rs \<subseteq> set (descendants ?n)"
      using glob_subset [of ?n] by (simp del: glob.simps descendants.simps)
    with key_of_inj_on [OF wfn, of folder] have i: "inj_on (key_of folder) (set ?rs)"
      by (rule inj_on_subset)
    have pin: "p \<in> set ?rs"
      using assms(3) by (simp del: glob.simps)
    have "entry_of f folder p = None" using assms(5) by (simp add: entry_of_def)
    moreover have "map_of bp (key_of folder p)
        = (if is_file f (joinpath folder p) = Inr True
           then map_option snd (entry_of f folder p) else None)"
      unfolding build_returned [OF assms(1,2) b] using i pin
      by (rule map_of_entries)
    ultimately have "map_of bp (key_of folder p) = None" by simp
    then show ?thesis by (simp add: map_of_eq_None_iff)
  qed
  have raised: "\<exists>q \<in> set (glob ?n). is_file f (joinpath folder q) = Inl e'"
    if "build_blueprint_from_folder f folder = Inl e'" for e'
  proof -
    from that have "build_loop f folder (map (joinpath folder) ?rs) [] = Inl e'"
      using build_unfold [OF assms(2)] by simp
    from build_loop_raises [OF this] show ?thesis by (simp del: glob.simps)
  qed
  from step absent raised show ?thesis by blast
qed

theorem build_skips_failed_reads_witness:
  "is_file (fs_of locked_tree) (joinpath root_path [ascii ''secret.txt'']) = Inr True
   \<and> read_text (fs_of locked_tree) (joinpath root_path [ascii ''secret.txt'']) = Inl eacces
   \<and> utf8_decode [111, 107] = Some (ascii ''ok'')
   \<and> build_blueprint_from_folder (fs_of locked_tree) root_path
       = Inr [(ascii ''root/a.txt'', ascii ''hi'')]
   \<and> key_of root_path [ascii ''secret.txt''] \<notin> fst ` set [(ascii ''root/a.txt'', ascii ''hi'')]"
proof -
  let ?es = "[(ascii ''a.txt'', File None [104, 105]),
              (ascii ''secret.txt'', File (Some eacces) [111, 107])]"
  have wf: "wf_node (fs_root (fs_of locked_tree))"
    by (simp add: fs_eval_defs fs_of_def locked_tree_def)
  have st: "stat (fs_of locked_tree) root_path = Inr (Dir True True ?es)"
    by (simp add: fs_eval_defs fs_of_def locked_tree_def root_path_def)
  have p: "[ascii ''secret.txt''] \<in> set (glob (Dir True True ?es))"
    by simp
  have isf: "is_file (fs_of locked_tree) (joinpath root_path [ascii ''secret.txt'']) = Inr True"
    by (simp add: fs_eval_defs fs_of_def locked_tree_def root_path_def)
  have rd: "read_text (fs_of locked_tree) (joinpath root_path [ascii ''secret.txt''])
      = Inl eacces"
    by (simp add: fs_eval_defs fs_of_def locked_tree_def root_path_def)
  have d: "utf8_decode [111, 107] = Some (ascii ''ok'')"
    by (simp add: ascii_def)
  have b: "build_blueprint_from_folder (fs_of locked_tree) root_path
       = Inr [(ascii ''root/a.txt'', ascii ''hi'')]"
    by (simp add: fs_eval_defs fs_of_def locked_tree_def root_path_def)
  from build_skips_failed_reads [OF wf st p isf rd] isf rd d b show ?thesis by blast
qed

text \<open>
  C10 as stated fails: the file \<open>sub/b.txt\<close> holds valid UTF-8 and reading it fails with
  a permission error, because \<open>sub\<close> cannot be searched; \<open>is_file\<close> fails on it in
  the same way, outside the \<open>try\<close>, and the builder raises instead of passing over it.
\<close>

theorem build_unsearchable_directory_raises:
  "read_text (fs_of unsearchable_tree) (joinpath root_path [ascii ''sub'', ascii ''b.txt''])
     = Inl eacces
   \<and> is_file (fs_of unsearchable_tree) (joinpath root_path [ascii ''sub'', ascii ''b.txt''])
     = Inl eacces
   \<and> [ascii ''sub'', ascii ''b.txt''] \<in> set (glob unsearchable_tree)
   \<and> build_blueprint_from_folder (fs_of unsearchable_tree) root_path = Inl eacces"
  by (simp add: fs_eval_defs fs_of_def unsearchable_tree_def root_path_def)

section \<open>Independence of the listing order\<close>

lemma map_fst_canon_entries:
  "map fst (sort_key fst (map (\<lambda>e. (fst e, canon (snd e))) es)) = sort (map fst es)"
proof -
  have "sort (map fst es) = sort (map fst (map (\<lambda>e. (fst e, canon (snd e))) es))"
    by (simp add: comp_def)
  also have "\<dots> = map fst (sort_key fst (map (\<lambda>e. (fst e, canon (snd e))) es))"
    by (rule sort_key_map)
  finally show ?thesis by simp
qed

lemma map_of_canon:
  assumes "distinct (map fst es)"
  shows "map_of (sort_key fst (map (\<lambda>e. (fst e, canon (snd e))) es)) s
       = map_option canon (map_of es s)"
proof -
  let ?m = "map (\<lambda>e. (fst e, canon (snd e))) es"
  have "distinct (map fst (sort_key fst ?m))"
    using assms by (simp add: map_fst_canon_entries)
  moreover have "distinct (map fst ?m)" using assms by (simp add: comp_def)
  moreover have "set (sort_key fst ?m) = set ?m" by simp
  ultimately have "map_of (sort_key fst ?m) = map_of ?m"
    by (simp add: map_of_inject_set)
  moreover have "map_of ?m s = map_option canon (map_of es s)"
    by (induction es) auto
  ultimately show ?thesis by simp
qed

lemma wf_canon: "wf_node n \<Longrightarrow> wf_node (canon n)"
proof (induction n rule: canon.induct)
  case (1 err bs)
  show ?case by simp
next
  case (2 r x es)
  have "distinct (map fst (sort_key fst (map (\<lambda>e. (fst e, canon (snd e))) es)))"
    using "2.prems" by (simp add: map_fst_canon_entries)
  moreover have "\<forall>e \<in> set es. valid_name (fst e) \<and> wf_node (canon (snd e))"
    using 2 by (auto simp: list_all_iff)
  ultimately show ?case by (auto simp: list_all_iff)
qed

lemma walk_canon:
  "wf_node n \<Longrightarrow> list_all wf_node anc
   \<Longrightarrow> walk chk (canon n) (map canon anc) ps
       = (case walk chk n anc ps of
            Inl e \<Rightarrow> Inl e
          | Inr (n', a') \<Rightarrow> Inr (canon n', map canon a'))"
proof (induction chk n anc ps rule: walk.induct)
  case (1 chk n anc)
  show ?case by simp
next
  case (2 chk err bs anc s ss)
  show ?case by simp
next
  case (3 chk r x es anc s ss)
  define E where "E = sort_key fst (map (\<lambda>e. (fst e, canon (snd e))) es)"
  have c: "canon (Dir r x es) = Dir r x E"
    by (simp add: E_def)
  have dist: "distinct (map fst es)" using "3.prems"(1) by simp
  have mo: "map_of E s = map_option canon (map_of es s)"
    using dist by (simp add: E_def map_of_canon)
  show ?case
  proof (cases "chk \<and> \<not> x")
    case True
    then show ?thesis by simp
  next
    case ok: False
    then have okf: "(chk \<and> \<not> x) = False" by simp
    show ?thesis
    proof (cases "s = [46, 46]")
      case True
      show ?thesis
      proof (cases anc)
        case Nil
        with ok True "3.IH"(1) "3.prems" have
          "walk chk (canon (Dir r x es)) (map canon []) ss
             = (case walk chk (Dir r x es) [] ss of
                  Inl e \<Rightarrow> Inl e
                | Inr (n', a') \<Rightarrow> Inr (canon n', map canon a'))"
          by simp
        with True Nil show ?thesis by (simp add: c okf del: canon.simps)
      next
        case (Cons a anc')
        with ok True "3.IH"(2) "3.prems" have
          "walk chk (canon a) (map canon anc') ss
             = (case walk chk a anc' ss of
                  Inl e \<Rightarrow> Inl e
                | Inr (n', a') \<Rightarrow> Inr (canon n', map canon a'))"
          by simp
        with True Cons show ?thesis by (simp add: c okf del: canon.simps)
      qed
    next
      case False
      show ?thesis
      proof (cases "map_of es s")
        case None
        with False mo show ?thesis by (simp add: c okf del: canon.simps)
      next
        case (Some ch)
        then have "(s, ch) \<in> set es" by (rule map_of_SomeD)
        with "3.prems"(1) have "wf_node ch" by (auto simp: list_all_iff)
        with ok False Some "3.IH"(3) "3.prems" have
          "walk chk (canon ch) (map canon (Dir r x es # anc)) ss
             = (case walk chk ch (Dir r x es # anc) ss of
                  Inl e \<Rightarrow> Inl e
                | Inr (n', a') \<Rightarrow> Inr (canon n', map canon a'))"
          by simp
        with False Some mo show ?thesis
          by (simp add: c okf del: canon.simps)
      qed
    qed
  qed
qed

lemma mset_concat_map: "mset (concat (map G xs)) = (\<Sum>x\<in>#mset xs. mset (G x))"
  by (induction xs) auto

lemma mset_glob_canon: "mset (glob (canon n)) = mset (glob n)"
proof (induction n rule: canon.induct)
  case (1 err bs)
  show ?case by simp
next
  case (2 r x es)
  let ?h = "\<lambda>e. (fst e, canon (snd e))"
  let ?es' = "sort_key fst (map ?h es)"
  let ?G = "\<lambda>g e. map ((#) (fst e)) (if x then g (snd e) else [])"
  have a: "mset (map (\<lambda>e. [fst e]) ?es') = mset (map (\<lambda>e. [fst e]) es)"
    by (simp add: image_mset.compositionality comp_def)
  have "mset (concat (map (?G glob) ?es'))
      = (\<Sum>e\<in>#mset es. mset (?G glob (?h e)))"
    by (simp add: mset_concat_map image_mset.compositionality comp_def)
  also have "\<dots> = (\<Sum>e\<in>#mset es. mset (?G glob e))"
  proof -
    have "image_mset (\<lambda>e. mset (?G glob (?h e))) (mset es)
        = image_mset (\<lambda>e. mset (?G glob e)) (mset es)"
      by (rule image_mset_cong) (simp add: 2)
    then show ?thesis by simp
  qed
  also have "\<dots> = mset (concat (map (?G glob) es))"
    by (simp add: mset_concat_map)
  finally show ?case using a by simp
qed

lemma sort_glob_canon: "sort (glob (canon n)) = sort (glob n)"
  by (rule properties_for_sort) (simp_all add: mset_glob_canon)

lemma resolve_canon:
  assumes "wf_node (fs_root f)"
  shows "resolve (f\<lparr>fs_root := canon (fs_root f)\<rparr>) p
       = (case resolve f p of
            Inl e \<Rightarrow> Inl e
          | Inr (n, anc) \<Rightarrow> Inr (canon n, map canon anc))"
proof (cases "absolute p")
  case True
  with walk_canon [OF assms, of "[]" True "parts p"] show ?thesis
    by (simp add: resolve_def)
next
  case False
  have c: "walk False (canon (fs_root f)) (map canon []) (fs_cwd f)
      = (case walk False (fs_root f) [] (fs_cwd f) of
           Inl e \<Rightarrow> Inl e
         | Inr (n', a') \<Rightarrow> Inr (canon n', map canon a'))"
    using assms by (intro walk_canon) simp_all
  show ?thesis
  proof (cases "walk False (fs_root f) [] (fs_cwd f)")
    case (Inl e)
    with c False show ?thesis by (simp add: resolve_def)
  next
    case (Inr na)
    obtain n anc where na: "na = (n, anc)" by (cases na)
    from wf_walk [OF assms _ Inr [unfolded na]] have "wf_node n" "list_all wf_node anc"
      by simp_all
    from walk_canon [OF this, of True "parts p"] c Inr na False show ?thesis
      by (simp add: resolve_def)
  qed
qed

lemma stat_canon:
  assumes "wf_node (fs_root f)"
  shows "stat (f\<lparr>fs_root := canon (fs_root f)\<rparr>) p
       = (case stat f p of Inl e \<Rightarrow> Inl e | Inr n \<Rightarrow> Inr (canon n))"
  unfolding stat_def resolve_canon [OF assms] by (auto split: sum.splits)

lemma observe_canon:
  assumes "wf_node (fs_root f)"
  shows "is_file (f\<lparr>fs_root := canon (fs_root f)\<rparr>) p = is_file f p"
    and "read_text (f\<lparr>fs_root := canon (fs_root f)\<rparr>) p = read_text f p"
    and "exists (f\<lparr>fs_root := canon (fs_root f)\<rparr>) p = exists f p"
    and "is_dir (f\<lparr>fs_root := canon (fs_root f)\<rparr>) p = is_dir f p"
  unfolding is_file_def read_text_def exists_def is_dir_def stat_canon [OF assms]
  by (auto split: sum.splits node.splits)

lemma build_loop_cong:
  "(\<And>p. is_file f' p = is_file f p) \<Longrightarrow> (\<And>p. read_text f' p = read_text f p)
   \<Longrightarrow> build_loop f' folder ps bp = build_loop f folder ps bp"
  by (induction ps arbitrary: bp) (auto simp: Let_def split: sum.splits)

lemma build_canon:
  assumes wf: "wf_node (fs_root f)"
  shows "build_blueprint_from_folder (f\<lparr>fs_root := canon (fs_root f)\<rparr>) folder
       = build_blueprint_from_folder f folder"
proof -
  let ?f' = "f\<lparr>fs_root := canon (fs_root f)\<rparr>"
  note st = stat_canon [OF wf, of folder]
  show ?thesis
  proof (cases "stat f folder")
    case (Inl e)
    with st show ?thesis
      by (simp add: build_blueprint_from_folder_def exists_def is_dir_def)
  next
    case (Inr n)
    show ?thesis
    proof (cases n)
      case (File err bs)
      with Inr st show ?thesis
        by (simp add: build_blueprint_from_folder_def exists_def is_dir_def)
    next
      case (Dir r x es)
      with Inr have s: "stat f folder = Inr (Dir r x es)" by simp
      obtain es' where es': "canon (Dir r x es) = Dir r x es'" by simp
      with st s have s': "stat ?f' folder = Inr (Dir r x es')" by simp
      have srt: "sort (glob (Dir r x es')) = sort (glob (Dir r x es))"
        unfolding es' [symmetric] by (rule sort_glob_canon)
      show ?thesis
        unfolding build_unfold [OF s] build_unfold [OF s'] srt
        by (rule build_loop_cong) (simp_all add: observe_canon [OF wf])
    qed
  qed
qed

lemma build_sorted:
  assumes wf: "wf_node (fs_root f)" and b: "build_blueprint_from_folder f folder = Inr bp"
  shows "\<exists>rs. sorted rs \<and> distinct rs \<and> map fst bp = map (key_of folder) rs"
proof (cases "\<exists>r x es. stat f folder = Inr (Dir r x es)")
  case True
  then obtain r x es where s: "stat f folder = Inr (Dir r x es)" by blast
  have wfn: "wf_node (Dir r x es)" using wf s by (rule wf_stat)
  let ?rs = "filter (\<lambda>p. entry_of f folder p \<noteq> None)
               (filter (\<lambda>p. is_file f (joinpath folder p) = Inr True)
                  (sort (glob (Dir r x es))))"
  have "sorted ?rs"
    by (intro sorted_wrt_filter sorted_sort)
  moreover have "distinct ?rs"
    using distinct_glob [OF wfn] by (intro distinct_filter) (simp del: glob.simps)
  moreover have "map fst bp = map (key_of folder) ?rs"
    unfolding build_returned [OF wf s b] by (rule map_fst_entries)
  ultimately show ?thesis by blast
next
  case False
  with b have "bp = []"
    by (cases "stat f folder")
      (auto simp: build_blueprint_from_folder_def exists_def is_dir_def
        split: node.splits if_splits)
  then show ?thesis by (intro exI [of _ "[]"]) simp
qed

text \<open>
  C8. Two trees that differ only in the order in which their directories list their
  entries give the same outcome, and so the same blueprint, keys in the same order with
  the same values: the paths are sorted before the loop runs, and the keys of a
  blueprint follow the sorted order of the paths (segment by segment).
\<close>

theorem build_deterministic:
  assumes "wf_node (fs_root f1)" and "wf_node (fs_root f2)"
    and "canon (fs_root f1) = canon (fs_root f2)" and "fs_cwd f1 = fs_cwd f2"
  shows "build_blueprint_from_folder f1 folder = build_blueprint_from_folder f2 folder
       \<and> (\<forall>bp. build_blueprint_from_folder f1 folder = Inr bp
             \<longrightarrow> (\<exists>rs. sorted rs \<and> distinct rs \<and> map fst bp = map (key_of folder) rs))"
proof -
  have "f1\<lparr>fs_root := canon (fs_root f1)\<rparr> = f2\<lparr>fs_root := canon (fs_root f2)\<rparr>"
    using assms(3,4) by (cases f1, cases f2) simp
  then have "build_blueprint_from_folder f1 folder = build_blueprint_from_folder f2 folder"
    using build_canon [OF assms(1), of folder] build_canon [OF assms(2), of folder] by simp
  with build_sorted [OF assms(1), of folder] show ?thesis by blast
qed

theorem build_deterministic_witness:
  "wf_node (fs_root (fs_of pair_tree)) \<and> wf_node (fs_root (fs_of pair_tree_reordered))
   \<and> pair_tree \<noteq> pair_tree_reordered
   \<and> canon (fs_root (fs_of pair_tree)) = canon (fs_root (fs_of pair_tree_reordered))
   \<and> build_blueprint_from_folder (fs_of pair_tree) root_path
       = build_blueprint_from_folder (fs_of pair_tree_reordered) root_path
   \<and> build_blueprint_from_folder (fs_of pair_tree_reordered) root_path
       = Inr [(ascii ''root/a.txt'', ascii ''a''), (ascii ''root/b.txt'', ascii ''b'')]"
proof -
  have wf1: "wf_node (fs_root (fs_of pair_tree))"
    and wf2: "wf_node (fs_root (fs_of pair_tree_reordered))"
    by (simp_all add: fs_eval_defs fs_of_def pair_tree_def pair_tree_reordered_def)
  have ne: "pair_tree \<noteq> pair_tree_reordered"
    by (simp add: fs_eval_defs pair_tree_def pair_tree_reordered_def)
  have c: "canon (fs_root (fs_of pair_tree)) = canon (fs_root (fs_of pair_tree_reordered))"
    by (simp add: fs_eval_defs fs_of_def pair_tree_def pair_tree_reordered_def)
  have cwd: "fs_cwd (fs_of pair_tree) = fs_cwd (fs_of pair_tree_reordered)"
    by (simp add: fs_of_def)
  have b: "build_blueprint_from_folder (fs_of pair_tree_reordered) root_path
       = Inr [(ascii ''root/a.txt'', ascii ''a''), (ascii ''root/b.txt'', ascii ''b'')]"
    by (simp add: fs_eval_defs fs_of_def pair_tree_reordered_def root_path_def)
  from build_deterministic [OF wf1 wf2 c cwd, of root_path] wf1 wf2 ne c b
  show ?thesis by blast
qed

section \<open>Serialization round trip\<close>

lemma hex_val_hex_digit: "d < 16 \<Longrightarrow> hex_val (hex_digit d) = Some d"
  by (auto simp: hex_val_def hex_digit_def)

lemma hex4_low: "c < 32 \<Longrightarrow> hex4 48 48 (hex_digit (c div 16)) (hex_digit (c mod 16)) = Some c"
proof -
  assume c: "c < 32"
  then have "c div 16 < 16" by simp
  then have a: "hex_val (hex_digit (c div 16)) = Some (c div 16)" by (rule hex_val_hex_digit)
  have b: "hex_val (hex_digit (c mod 16)) = Some (c mod 16)" by (rule hex_val_hex_digit) simp
  have z: "hex_val 48 = Some 0" by (simp add: hex_val_def)
  show ?thesis by (simp add: hex4_def a b z)
qed

lemma surrogate_pair_low: "u < 55296 \<Longrightarrow> surrogate_pair u r = (u, r)"
  by (simp add: surrogate_pair_def split: list.splits)

lemma scanstring_escape_char:
  "scanstring (escape_char c @ rest) = map_option (\<lambda>(s, r). (c # s, r)) (scanstring rest)"
proof -
  consider "c = 92" | "c = 34" | "c = 8" | "c = 12" | "c = 10" | "c = 13" | "c = 9"
    | "c < 32" "c \<notin> {8, 9, 10, 12, 13}" | "32 \<le> c" "c \<noteq> 34" "c \<noteq> 92"
    by force
  then show ?thesis
  proof cases
    case 8
    then have e: "escape_char c = [92, 117, 48, 48, hex_digit (c div 16), hex_digit (c mod 16)]"
      by (auto simp: escape_char_def)
    from 8 have "surrogate_pair c rest = (c, rest)" by (intro surrogate_pair_low) simp
    with 8 show ?thesis by (simp add: e hex4_low)
  next
    case 9
    then have "escape_char c = [c]" by (auto simp: escape_char_def)
    with 9 show ?thesis by simp
  qed (simp_all add: escape_char_def unescape_def)
qed

lemma scanstring_encoded:
  "scanstring (concat (map escape_char s) @ 34 # rest) = Some (s, rest)"
  by (induction s) (simp_all add: scanstring_escape_char del: scanstring.simps, simp)


lemma skip_ws_simps:
  "skip_ws [] = []"
  "is_ws c \<Longrightarrow> skip_ws (c # cs) = skip_ws cs"
  "\<not> is_ws c \<Longrightarrow> skip_ws (c # cs) = c # cs"
  by (simp_all add: skip_ws_def)

lemma is_ws_simps:
  "is_ws 10" "is_ws 32" "\<not> is_ws 34" "\<not> is_ws 44" "\<not> is_ws 58" "\<not> is_ws 123" "\<not> is_ws 125"
  by (simp_all add: is_ws_def)

lemma parse_pairs_last:
  "parse_pairs (concat (map escape_char k) @ [34, 58, 32, 34] @ concat (map escape_char v)
                 @ [34, 10, 125] @ rest)
     = Some ([(k, v)], rest)"
proof -
  have "scanstring (concat (map escape_char k) @ 34 # ([58, 32, 34] @ concat (map escape_char v)
                 @ [34, 10, 125] @ rest))
      = Some (k, [58, 32, 34] @ concat (map escape_char v) @ [34, 10, 125] @ rest)"
    by (rule scanstring_encoded)
  moreover have "scanstring (concat (map escape_char v) @ 34 # ([10, 125] @ rest))
      = Some (v, [10, 125] @ rest)"
    by (rule scanstring_encoded)
  ultimately show ?thesis
    by (subst parse_pairs.simps) (simp add: skip_ws_simps is_ws_simps del: scanstring.simps)
qed

lemma parse_pairs_more:
  "parse_pairs (concat (map escape_char k) @ [34, 58, 32, 34] @ concat (map escape_char v)
                 @ [34, 44, 10, 32, 32, 34] @ tail)
     = map_option (\<lambda>(ps, r). ((k, v) # ps, r)) (parse_pairs tail)"
proof -
  have "scanstring (concat (map escape_char k) @ 34 # ([58, 32, 34] @ concat (map escape_char v)
                 @ [34, 44, 10, 32, 32, 34] @ tail))
      = Some (k, [58, 32, 34] @ concat (map escape_char v) @ [34, 44, 10, 32, 32, 34] @ tail)"
    by (rule scanstring_encoded)
  moreover have "scanstring (concat (map escape_char v) @ 34 # ([44, 10, 32, 32, 34] @ tail))
      = Some (v, [44, 10, 32, 32, 34] @ tail)"
    by (rule scanstring_encoded)
  ultimately show ?thesis
    by (subst parse_pairs.simps)
      (simp add: skip_ws_simps is_ws_simps del: scanstring.simps parse_pairs.simps)
qed

text \<open>The members as the encoder writes them, without the opening quote of the first key.\<close>

lemma encode_item_expand:
  "encode_item (k, v)
     = 34 # concat (map escape_char k) @ [34, 58, 32, 34] @ concat (map escape_char v) @ [34]"
  by (simp add: encode_item_def encode_basestring_def)

lemma py_join_items:
  "py_join [44, 10, 32, 32] (map encode_item ((k, v) # d))
     = 34 # concat (map escape_char k) @ [34, 58, 32, 34] @ concat (map escape_char v) @ [34]
          @ (if d = [] then []
             else [44, 10, 32, 32] @ py_join [44, 10, 32, 32] (map encode_item d))"
  by (cases d) (simp_all add: encode_item_expand)

lemma py_join_items_quote:
  "d \<noteq> [] \<Longrightarrow> \<exists>t. py_join [44, 10, 32, 32] (map encode_item d) = 34 # t"
proof -
  assume "d \<noteq> []"
  then obtain k v d' where d: "d = (k, v) # d'" by (cases d) auto
  show ?thesis unfolding d py_join_items by blast
qed

lemma parse_pairs_items:
  "d \<noteq> [] \<Longrightarrow> py_join [44, 10, 32, 32] (map encode_item d) = 34 # t
   \<Longrightarrow> parse_pairs (t @ [10, 125] @ rest) = Some (d, rest)"
proof (induction d arbitrary: t)
  case Nil
  then show ?case by simp
next
  case (Cons kv d)
  obtain k v where kv: "kv = (k, v)" by (cases kv)
  show ?case
  proof (cases "d = []")
    case True
    with Cons.prems(2) have "t = concat (map escape_char k) @ [34, 58, 32, 34]
        @ concat (map escape_char v) @ [34]"
      by (simp add: kv encode_item_expand)
    with True parse_pairs_last [of k v rest] show ?thesis
      by (simp add: kv del: parse_pairs.simps)
  next
    case False
    then obtain t' where t': "py_join [44, 10, 32, 32] (map encode_item d) = 34 # t'"
      using py_join_items_quote by blast
    from Cons.prems(2) have "34 # t = py_join [44, 10, 32, 32] (map encode_item ((k, v) # d))"
      by (simp only: kv)
    also have "\<dots> = 34 # concat (map escape_char k) @ [34, 58, 32, 34]
        @ concat (map escape_char v) @ [34] @ [44, 10, 32, 32] @ 34 # t'"
      unfolding py_join_items t' using False by simp
    finally have t: "t @ [10, 125] @ rest = concat (map escape_char k) @ [34, 58, 32, 34]
        @ concat (map escape_char v) @ [34, 44, 10, 32, 32, 34] @ (t' @ [10, 125] @ rest)"
      by simp
    show ?thesis
      unfolding t parse_pairs_more Cons.IH [OF False t'] by (simp add: kv)
  qed
qed

lemma foldl_dict_set:
  "distinct (map fst (acc @ ps))
   \<Longrightarrow> foldl (\<lambda>d kv. dict_set d (fst kv) (snd kv)) acc ps = acc @ ps"
proof (induction ps arbitrary: acc)
  case Nil
  show ?case by simp
next
  case (Cons kv ps)
  from Cons.prems have "fst kv \<notin> fst ` set acc" by auto
  then have "dict_set acc (fst kv) (snd kv) = acc @ [kv]" by (simp add: dict_set_fresh)
  moreover from Cons.prems have "distinct (map fst ((acc @ [kv]) @ ps))" by simp
  ultimately show ?case using Cons.IH [of "acc @ [kv]"] by simp
qed

lemma dict_of_distinct: "distinct (map fst ps) \<Longrightarrow> dict_of ps = ps"
  using foldl_dict_set [of "[]" ps] by (simp add: dict_of_def)

lemma json_loads_dumps:
  assumes "distinct (map fst B)"
  shows "json_loads (json_dumps B) = Some B"
proof (cases "B = []")
  case True
  then show ?thesis
    by (simp add: json_loads_def json_dumps_def skip_ws_simps is_ws_simps)
next
  case False
  then obtain k v d where B: "B = (k, v) # d" by (cases B) auto
  obtain t where t: "py_join [44, 10, 32, 32] (map encode_item B) = 34 # t"
    using False py_join_items_quote by blast
  have "json_dumps B = [123, 10, 32, 32, 34] @ t @ [10, 125]"
    using False by (simp add: json_dumps_def newline_indent_def t)
  moreover have "parse_pairs (t @ [10, 125]) = Some (B, [])"
    using parse_pairs_items [OF False t, of "[]"] by (simp del: parse_pairs.simps)
  ultimately show ?thesis
    using assms
    by (simp add: json_loads_def skip_ws_simps is_ws_simps dict_of_distinct
        del: parse_pairs.simps)
qed

lemma py_join_concat: "py_join sep (x # xs) = x @ concat (map (\<lambda>e. sep @ e) xs)"
  by (induction xs arbitrary: x) simp_all

lemma json_dumps_layout:
  "json_dumps (kv # B)
     = [123, 10, 32, 32] @ encode_item kv
       @ concat (map (\<lambda>e. [44, 10, 32, 32] @ encode_item e) B) @ [10, 125]"
  by (simp add: json_dumps_def newline_indent_def py_join_concat comp_def)

lemma newline_not_in_escape: "10 \<notin> set (escape_char c)"
  by (auto simp: escape_char_def hex_digit_def)

lemma newline_not_in_item: "10 \<notin> set (encode_item kv)"
  by (auto simp: encode_item_def encode_basestring_def newline_not_in_escape)

lemma encode_literal:
  "\<forall>c \<in> set s. 128 \<le> c \<Longrightarrow> encode_basestring s = [34] @ s @ [34]"
proof -
  assume a: "\<forall>c \<in> set s. 128 \<le> c"
  then have "concat (map escape_char s) = s"
    by (induction s) (auto simp: escape_char_def)
  then show ?thesis by (simp add: encode_basestring_def)
qed

text \<open>
  C7. Parsing the serialization of a blueprint gives the blueprint back, keys in the same
  order. The serialization is \<open>{}\<close> for the empty blueprint and otherwise an opening
  brace, one line per entry indented by two spaces and separated by commas, and a
  closing brace on its own line; no entry contains a raw line feed. A string of code
  points outside ASCII is written as it is between the quotes.
\<close>

theorem json_round_trip:
  "(distinct (map fst B) \<longrightarrow> json_loads (json_dumps B) = Some B)
   \<and> json_dumps [] = [123, 125]
   \<and> json_dumps (kv # B')
       = [123, 10, 32, 32] @ encode_item kv
         @ concat (map (\<lambda>e. [44, 10, 32, 32] @ encode_item e) B') @ [10, 125]
   \<and> 10 \<notin> set (encode_item kv)
   \<and> ((\<forall>c \<in> set s. 128 \<le> c) \<longrightarrow> encode_basestring s = [34] @ s @ [34])"
  using json_loads_dumps [of B] json_dumps_layout [of kv B'] newline_not_in_item [of kv]
    encode_literal [of s]
  by (simp add: json_dumps_def)

theorem json_round_trip_witness:
  "distinct (map fst [(ascii ''root/a.txt'', [104, 233, 10]), (ascii ''b'', [8364])])
   \<and> json_loads (json_dumps [(ascii ''root/a.txt'', [104, 233, 10]), (ascii ''b'', [8364])])
       = Some [(ascii ''root/a.txt'', [104, 233, 10]), (ascii ''b'', [8364])]
   \<and> json_dumps [(ascii ''root/a.txt'', [104, 233, 10]), (ascii ''b'', [8364])]
       = [123, 10, 32, 32, 34] @ ascii ''root/a.txt'' @ [34, 58, 32, 34, 104, 233, 92, 110, 34]
         @ [44, 10, 32, 32, 34] @ ascii ''b'' @ [34, 58, 32, 34, 8364, 34] @ [10, 125]
   \<and> encode_basestring [233, 8364] = [34, 233, 8364, 34]"
proof -
  let ?B = "[(ascii ''root/a.txt'', [104, 233, 10]), (ascii ''b'', [8364])]"
  have d: "distinct (map fst ?B)"
    by (simp add: ascii_def)
  have n: "\<forall>c \<in> set [233, 8364 :: nat]. 128 \<le> c"
    by simp
  have l: "json_dumps ?B
       = [123, 10, 32, 32, 34] @ ascii ''root/a.txt'' @ [34, 58, 32, 34, 104, 233, 92, 110, 34]
         @ [44, 10, 32, 32, 34] @ ascii ''b'' @ [34, 58, 32, 34, 8364, 34] @ [10, 125]"
    by (simp add: json_dumps_def newline_indent_def encode_item_def encode_basestring_def
        escape_char_def ascii_def)
  from json_round_trip [of ?B "(ascii ''b'', [8364])" "[]" "[233, 8364]"] d n l
  show ?thesis by simp
qed

end
